theory Spec2Isabelle
  imports Main "HOL-Library.Sublist" "HOL-Library.Char_ord" "HOL-Library.List_Lexorder"
    "HOL-Library.AList"
begin

section \<open>zbxtpltools: the dependency resolver\<close>

text \<open>
  A shallow embedding of \<^verbatim>\<open>zbxtpltools/zbxtpltools.py\<close> and of the two entry scripts.
  Template names are Python strings. A Python \<^verbatim>\<open>dict\<close> keeps its insertion order, so it is
  an association list (its keys are distinct); a Python \<^verbatim>\<open>set\<close> is a HOL set.
\<close>

type_synonym name = string

type_synonym depdict = "(name \<times> name set) list"

text \<open>
  The body of the \<^verbatim>\<open>while d:\<close> loop of \<^verbatim>\<open>resolve_dependencies\<close>:
  \<^verbatim>\<open>t = set(i for v in d.values() for i in v) - set(d.keys())\<close> followed by
  \<^verbatim>\<open>t.update(k for k, v in d.items() if not v)\<close> is \<open>wave d\<close>, and
  \<^verbatim>\<open>dict(((k, v-t) for k, v in d.items() if v))\<close> is \<open>cleaned d t\<close>.
\<close>

definition wave :: "depdict \<Rightarrow> name set" where
  "wave d = (\<Union> (set (map snd d)) - set (map fst d))
              \<union> set (map fst (filter (\<lambda>(k, v). v = {}) d))"

definition cleaned :: "depdict \<Rightarrow> name set \<Rightarrow> depdict" where
  "cleaned d t = map (\<lambda>(k, v). (k, v - t)) (filter (\<lambda>(k, v). v \<noteq> {}) d)"

text \<open>
  The loop has no bound in the source, so it is a partial function: \<open>None\<close> is "the loop
  never leaves". \<open>r\<close> is the list of waves appended so far.
\<close>

partial_function (option) resolve_loop :: "depdict \<Rightarrow> name set list \<Rightarrow> name set list option" where
  "resolve_loop d r =
     (if d = [] then Some r
      else (let t = wave d in resolve_loop (cleaned d t) (r @ [t])))"

declare resolve_loop.simps [code]

text \<open>
  \<^verbatim>\<open>d = dict((k, set(deplist[k])) for k in deplist)\<close>, \<^verbatim>\<open>r = []\<close>, then the loop.
\<close>

definition resolve_dependencies :: "depdict \<Rightarrow> name set list option" where
  "resolve_dependencies deplist = resolve_loop (map (\<lambda>(k, v). (k, v)) deplist) []"

text \<open>
  The dependency relation of a mapping, confined to the names that are keys: \<open>(k, x)\<close> when
  \<open>k\<close> lists \<open>x\<close> and \<open>x\<close> is a key too. A cycle among keys is a pair \<open>(k, k)\<close> in its
  transitive closure.
\<close>

definition dep_rel :: "depdict \<Rightarrow> (name \<times> name) set" where
  "dep_rel d = {(k, x). \<exists>v. (k, v) \<in> set d \<and> x \<in> v \<and> x \<in> fst ` set d}"

text \<open>
  A knot is a non-empty set of keys each of whose entries lists a member of the set. No
  round of the loop removes a member of a knot.
\<close>

definition knot :: "depdict \<Rightarrow> name set \<Rightarrow> bool" where
  "knot d C = (C \<noteq> {} \<and> C \<subseteq> fst ` set d \<and> (\<forall>(k, v) \<in> set d. k \<in> C \<longrightarrow> v \<inter> C \<noteq> {}))"

text \<open>
  Every name of a mapping: its keys and the names listed in its dependency sets.
\<close>

definition names :: "depdict \<Rightarrow> name set" where
  "names d = fst ` set d \<union> \<Union> (snd ` set d)"

text \<open>
  The order property of a list of waves: no two waves share a name, and every dependency
  listed by a key stands in a wave with a strictly smaller index than the key's wave.
\<close>

definition ordered_waves :: "depdict \<Rightarrow> name set list \<Rightarrow> bool" where
  "ordered_waves d ws =
     ((\<forall>i < length ws. \<forall>j < i. ws ! i \<inter> ws ! j = {}) \<and>
      (\<forall>i < length ws. \<forall>k v. (k, v) \<in> set d \<and> k \<in> ws ! i \<longrightarrow> (\<forall>x \<in> v. \<exists>j < i. x \<in> ws ! j)))"

subsection \<open>A cycle among keys keeps the loop running\<close>

lemma knot_step:
  assumes "knot d C"
  shows "knot (cleaned d (wave d)) C"
proof -
  from assms have ne: "C \<noteq> {}" and sub: "C \<subseteq> fst ` set d"
    and dep: "\<And>k v. (k, v) \<in> set d \<Longrightarrow> k \<in> C \<Longrightarrow> v \<inter> C \<noteq> {}"
    by (auto simp: knot_def)
  have disj: "wave d \<inter> C = {}"
  proof (rule ccontr)
    assume "wave d \<inter> C \<noteq> {}"
    then obtain x where x: "x \<in> wave d" "x \<in> C" by auto
    from x(2) sub have xk: "x \<in> fst ` set d" by auto
    with x(1) obtain v where "(x, v) \<in> set d" "v = {}"
      by (auto simp: wave_def)
    with dep[of x v] x(2) show False by auto
  qed
  have keys: "C \<subseteq> fst ` set (cleaned d (wave d))"
  proof
    fix k assume kC: "k \<in> C"
    with sub obtain v where kv: "(k, v) \<in> set d" by auto
    with dep kC have "v \<noteq> {}" by auto
    with kv have "(k, v - wave d) \<in> set (cleaned d (wave d))"
      by (force simp: cleaned_def)
    then show "k \<in> fst ` set (cleaned d (wave d))" by force
  qed
  have deps: "\<forall>(k, v) \<in> set (cleaned d (wave d)). k \<in> C \<longrightarrow> v \<inter> C \<noteq> {}"
  proof clarify
    fix k v
    assume kv: "(k, v) \<in> set (cleaned d (wave d))" and kC: "k \<in> C" and e: "v \<inter> C = {}"
    from kv obtain v0 where v0: "(k, v0) \<in> set d" "v = v0 - wave d"
      by (auto simp: cleaned_def)
    from dep[OF v0(1) kC] obtain x where "x \<in> v0" "x \<in> C" by auto
    with disj v0(2) have "x \<in> v \<inter> C" by auto
    with e show False by auto
  qed
  from ne keys deps show ?thesis by (simp add: knot_def)
qed

lemma resolve_loop_knot:
  assumes "resolve_loop d r = Some y"
  shows "\<not> knot d C"
proof (rule resolve_loop.raw_induct[where P = "\<lambda>d r y. \<not> knot d C", OF _ assms])
  fix f :: "depdict \<Rightarrow> name set list \<Rightarrow> name set list option" and d r y
  assume IH: "\<And>d r y. f d r = Some y \<Longrightarrow> \<not> knot d C"
    and eq: "(if d = [] then Some r else let t = wave d in f (cleaned d t) (r @ [t])) = Some y"
  show "\<not> knot d C"
  proof
    assume k: "knot d C"
    then have "d \<noteq> []" by (auto simp: knot_def)
    with eq have "f (cleaned d (wave d)) (r @ [wave d]) = Some y"
      by (simp add: Let_def)
    from IH[OF this] knot_step[OF k] show False by blast
  qed
qed

lemma cycle_knot:
  assumes cyc: "(k, k) \<in> (dep_rel d)\<^sup>+" and dist: "distinct (map fst d)"
  shows "knot d {x. (k, x) \<in> (dep_rel d)\<^sup>+ \<and> (x, k) \<in> (dep_rel d)\<^sup>+}"
proof -
  let ?R = "dep_rel d"
  let ?C = "{x. (k, x) \<in> ?R\<^sup>+ \<and> (x, k) \<in> ?R\<^sup>+}"
  have ne: "?C \<noteq> {}" using cyc by auto
  have sub: "?C \<subseteq> fst ` set d"
  proof
    fix x assume "x \<in> ?C"
    then have "(x, k) \<in> ?R\<^sup>+" by simp
    then obtain z where "(x, z) \<in> ?R" by (auto dest: tranclD)
    then show "x \<in> fst ` set d" by (force simp: dep_rel_def)
  qed
  have deps: "\<forall>(x, v) \<in> set d. x \<in> ?C \<longrightarrow> v \<inter> ?C \<noteq> {}"
  proof clarify
    fix x v
    assume xv: "(x, v) \<in> set d" and kx: "(k, x) \<in> ?R\<^sup>+" and xk: "(x, k) \<in> ?R\<^sup>+"
      and e: "v \<inter> ?C = {}"
    from xk obtain z where z: "(x, z) \<in> ?R" "(z, k) \<in> ?R\<^sup>*" by (auto dest: tranclD)
    from z(1) obtain v' where v': "(x, v') \<in> set d" "z \<in> v'" by (auto simp: dep_rel_def)
    from dist xv v'(1) have "v' = v" by (meson eq_key_imp_eq_value)
    with v'(2) have zv: "z \<in> v" by simp
    from kx z(1) have kz: "(k, z) \<in> ?R\<^sup>+" by (rule trancl_into_trancl)
    from z(2) cyc have zk: "(z, k) \<in> ?R\<^sup>+" by (metis rtrancl_trancl_trancl)
    from zv kz zk e show False by auto
  qed
  from ne sub deps show ?thesis by (simp add: knot_def)
qed

text \<open>
  C1. The claim: on every mapping with a cycle among its keys the resolver terminates and
  reports a CycleError naming the cyclic keys. The source has no such check: on every
  mapping (a dict, so with distinct keys) that has a cycle among its keys the
  \<^verbatim>\<open>while d:\<close> loop never leaves, so \<^verbatim>\<open>resolve_dependencies\<close> returns nothing at all.
\<close>

theorem resolve_dependencies_cycle_never_returns:
  assumes "distinct (map fst deplist)" and "(k, k) \<in> (dep_rel deplist)\<^sup>+"
  shows "resolve_dependencies deplist = None"
proof (cases "resolve_dependencies deplist")
  case None
  then show ?thesis .
next
  case (Some y)
  then have "resolve_loop deplist [] = Some y"
    by (simp add: resolve_dependencies_def)
  from resolve_loop_knot[OF this] cycle_knot[OF assms(2) assms(1)] show ?thesis
    by blast
qed

theorem resolve_dependencies_cycle_never_returns_witness:
  "resolve_dependencies [(''A'', {''B''}), (''B'', {''A''})] = None"
proof -
  have "(''A'', ''B'') \<in> dep_rel [(''A'', {''B''}), (''B'', {''A''})]"
    by (simp add: dep_rel_def)
  moreover have "(''B'', ''A'') \<in> dep_rel [(''A'', {''B''}), (''B'', {''A''})]"
    by (simp add: dep_rel_def)
  ultimately have "(''A'', ''A'') \<in> (dep_rel [(''A'', {''B''}), (''B'', {''A''})])\<^sup>+"
    by (rule trancl_into_trancl[OF r_into_trancl])
  moreover have "distinct (map fst [(''A'', {''B''}), (''B'', {''A''})])"
    by simp
  ultimately show ?thesis
    using resolve_dependencies_cycle_never_returns
      [of "[(''A'', {''B''}), (''B'', {''A''})]" "''A''"]
    by blast
qed

subsection \<open>Mappings without a cycle among keys\<close>

lemma in_cleaned: "(k, v') \<in> set (cleaned d t) \<longleftrightarrow> (\<exists>v. (k, v) \<in> set d \<and> v \<noteq> {} \<and> v' = v - t)"
  by (auto simp: cleaned_def)

lemma keys_cleaned: "fst ` set (cleaned d t) = {k. \<exists>v. (k, v) \<in> set d \<and> v \<noteq> {}}"
  by (force simp: cleaned_def)

lemma distinct_cleaned: "distinct (map fst d) \<Longrightarrow> distinct (map fst (cleaned d t))"
proof -
  have "map fst (cleaned d t) = map fst (filter (\<lambda>(k, v). v \<noteq> {}) d)"
    by (simp add: cleaned_def case_prod_beta comp_def)
  moreover assume "distinct (map fst d)"
  ultimately show ?thesis by (simp add: distinct_map_filter)
qed

lemma length_cleaned_le: "length (cleaned d t) \<le> length d"
  by (simp add: cleaned_def)

lemma length_cleaned_less:
  assumes "(k, {}) \<in> set d"
  shows "length (cleaned d t) < length d"
proof -
  have "length (filter (\<lambda>(k, v). v \<noteq> {}) d) < length d"
    using assms by (intro length_filter_less[of "(k, {})"]) auto
  then show ?thesis by (simp add: cleaned_def)
qed

lemma wave_alt: "wave d = (\<Union> (snd ` set d) - fst ` set d) \<union> {k. (k, {}) \<in> set d}"
  by (force simp: wave_def)

lemma closed_cleaned: "\<Union> (snd ` set (cleaned d (wave d))) \<subseteq> fst ` set (cleaned d (wave d))"
proof
  fix x assume "x \<in> \<Union> (snd ` set (cleaned d (wave d)))"
  then obtain k v where kv: "(k, v) \<in> set d" "x \<in> v" "x \<notin> wave d"
    by (auto simp: in_cleaned)
  from kv have "x \<in> fst ` set d" by (force simp: wave_alt)
  then obtain v' where v': "(x, v') \<in> set d" by auto
  with kv(3) have "v' \<noteq> {}" by (auto simp: wave_alt)
  with v' show "x \<in> fst ` set (cleaned d (wave d))" by (auto simp: keys_cleaned)
qed

lemma dep_rel_cleaned: "dep_rel (cleaned d t) \<subseteq> dep_rel d"
  by (auto simp: dep_rel_def in_cleaned keys_cleaned) force

lemma finite_dep_rel: "finite (dep_rel d)"
proof -
  have "dep_rel d \<subseteq> fst ` set d \<times> fst ` set d"
    by (force simp: dep_rel_def)
  then show ?thesis by (rule finite_subset) simp
qed

lemma exists_empty_key:
  assumes ne: "d \<noteq> []" and closed: "\<Union> (snd ` set d) \<subseteq> fst ` set d"
    and acyc: "acyclic (dep_rel d)"
  shows "\<exists>k. (k, {}) \<in> set d"
proof -
  have "wf ((dep_rel d)\<inverse>)"
    using finite_dep_rel acyc by (rule finite_acyclic_wf_converse)
  moreover from ne obtain k0 where "k0 \<in> fst ` set d" by (cases d) auto
  ultimately obtain z where z: "z \<in> fst ` set d"
    and min: "\<And>y. (y, z) \<in> (dep_rel d)\<inverse> \<Longrightarrow> y \<notin> fst ` set d"
    by (rule wfE_min) blast
  from z obtain v where v: "(z, v) \<in> set d" by auto
  have "v = {}"
  proof (rule ccontr)
    assume "v \<noteq> {}"
    then obtain x where x: "x \<in> v" by auto
    with v closed have xk: "x \<in> fst ` set d" by force
    with v x have "(z, x) \<in> dep_rel d" by (auto simp: dep_rel_def)
    with min[of x] xk show False by auto
  qed
  with v show ?thesis by auto
qed

lemma resolve_loop_acyclic:
  assumes "distinct (map fst d)" and "acyclic (dep_rel d)"
  shows "\<exists>ws. resolve_loop d r = Some (r @ ws) \<and> \<Union> (set ws) = names d \<and> ordered_waves d ws"
  using assms
proof (induction "2 * length d + (if \<Union> (snd ` set d) \<subseteq> fst ` set d then 0 else 1)"
    arbitrary: d r rule: less_induct)
  case less
  show ?case
  proof (cases "d = []")
    case True
    then have "resolve_loop d r = Some (r @ [])" by (simp add: resolve_loop.simps)
    moreover from True have "\<Union> (set []) = names d" by (simp add: names_def)
    moreover have "ordered_waves d []" by (simp add: ordered_waves_def)
    ultimately show ?thesis by blast
  next
    case False
    let ?t = "wave d"
    let ?d' = "cleaned d ?t"
    have closed': "\<Union> (snd ` set ?d') \<subseteq> fst ` set ?d'" by (rule closed_cleaned)
    have dec: "2 * length ?d' + (if \<Union> (snd ` set ?d') \<subseteq> fst ` set ?d' then 0 else 1)
        < 2 * length d + (if \<Union> (snd ` set d) \<subseteq> fst ` set d then 0 else 1)"
    proof (cases "\<Union> (snd ` set d) \<subseteq> fst ` set d")
      case True
      from exists_empty_key[OF False True less.prems(2)] obtain k where "(k, {}) \<in> set d" ..
      from length_cleaned_less[OF this, of ?t] closed' True show ?thesis by simp
    next
      case False
      with length_cleaned_le[of d ?t] closed' show ?thesis by simp
    qed
    have dist': "distinct (map fst ?d')" using less.prems(1) by (rule distinct_cleaned)
    have acyc': "acyclic (dep_rel ?d')"
      using less.prems(2) dep_rel_cleaned by (rule acyclic_subset)
    from less.hyps[OF dec dist' acyc', of "r @ [?t]"]
    obtain ws' where ws': "resolve_loop ?d' (r @ [?t]) = Some ((r @ [?t]) @ ws')"
      "\<Union> (set ws') = names ?d'" "ordered_waves ?d' ws'" by blast
    from closed' have names': "names ?d' = fst ` set ?d'" by (auto simp: names_def)
    have res: "resolve_loop d r = Some (r @ (?t # ws'))"
      using False ws'(1) by (subst resolve_loop.simps) (simp add: Let_def)
    have tk: "?t \<inter> fst ` set ?d' = {}"
    proof (rule ccontr)
      assume "?t \<inter> fst ` set ?d' \<noteq> {}"
      then obtain x where x: "x \<in> ?t" "x \<in> fst ` set ?d'" by auto
      from x(2) obtain v where v: "(x, v) \<in> set d" "v \<noteq> {}" by (auto simp: keys_cleaned)
      with x(1) have "(x, {}) \<in> set d" by (force simp: wave_alt)
      with v less.prems(1) show False by (meson eq_key_imp_eq_value)
    qed
    have un: "\<Union> (set (?t # ws')) = names d"
    proof -
      have "?t \<union> fst ` set ?d' = names d"
      proof
        show "?t \<union> fst ` set ?d' \<subseteq> names d"
          by (force simp: wave_alt keys_cleaned names_def)
        show "names d \<subseteq> ?t \<union> fst ` set ?d'"
        proof
          fix x assume "x \<in> names d"
          then consider "x \<in> fst ` set d" | "x \<notin> fst ` set d" "x \<in> \<Union> (snd ` set d)"
            by (auto simp: names_def)
          then show "x \<in> ?t \<union> fst ` set ?d'"
          proof cases
            case 1
            then obtain v where "(x, v) \<in> set d" by auto
            then show ?thesis by (cases "v = {}") (auto simp: wave_alt keys_cleaned)
          next
            case 2
            then show ?thesis by (auto simp: wave_alt)
          qed
        qed
      qed
      with ws'(2) names' show ?thesis by simp
    qed
    have sub: "\<And>i. i < length ws' \<Longrightarrow> ws' ! i \<subseteq> fst ` set ?d'"
      using ws'(2) names' by (metis Union_upper nth_mem)
    have ord: "ordered_waves d (?t # ws')"
      unfolding ordered_waves_def
    proof (intro conjI allI impI)
      fix i j assume i: "i < length (?t # ws')" and j: "j < i"
      show "(?t # ws') ! i \<inter> (?t # ws') ! j = {}"
      proof (cases j)
        case 0
        with j obtain i' where i': "i = Suc i'" by (cases i) auto
        with i have "i' < length ws'" by simp
        from sub[OF this] tk 0 i' show ?thesis by auto
      next
        case (Suc j')
        with j obtain i' where i': "i = Suc i'" "j' < i'" by (cases i) auto
        with i have "i' < length ws'" by simp
        with ws'(3) i'(2) have "ws' ! i' \<inter> ws' ! j' = {}"
          by (simp add: ordered_waves_def)
        with Suc i' show ?thesis by simp
      qed
    next
      fix i k v assume i: "i < length (?t # ws')" and kv: "(k, v) \<in> set d \<and> k \<in> (?t # ws') ! i"
      show "\<forall>x \<in> v. \<exists>j < i. x \<in> (?t # ws') ! j"
      proof (cases i)
        case 0
        with kv have "k \<in> ?t" "(k, v) \<in> set d" by auto
        then have "(k, {}) \<in> set d" by (force simp: wave_alt)
        with kv less.prems(1) have "v = {}" by (meson eq_key_imp_eq_value)
        then show ?thesis by simp
      next
        case (Suc i')
        with i kv have i': "i' < length ws'" and k: "k \<in> ws' ! i'" and kvd: "(k, v) \<in> set d" by auto
        from sub[OF i'] k have "k \<in> fst ` set ?d'" by auto
        then obtain v0 where v0: "(k, v0) \<in> set d" "v0 \<noteq> {}" by (auto simp: keys_cleaned)
        with kvd less.prems(1) have "v0 = v" by (meson eq_key_imp_eq_value)
        with v0 have in': "(k, v - ?t) \<in> set ?d'" by (auto simp: in_cleaned)
        show ?thesis
        proof
          fix x assume xv: "x \<in> v"
          show "\<exists>j < i. x \<in> (?t # ws') ! j"
          proof (cases "x \<in> ?t")
            case True
            with Suc show ?thesis by (intro exI[of _ 0]) simp
          next
            case False
            with xv have "x \<in> v - ?t" by simp
            with ws'(3) i' in' k obtain j where "j < i'" "x \<in> ws' ! j"
              unfolding ordered_waves_def by blast
            with Suc show ?thesis by (intro exI[of _ "Suc j"]) simp
          qed
        qed
      qed
    qed
    from res un ord show ?thesis by blast
  qed
qed


lemma acyclic_by_rank:
  fixes f :: "name \<Rightarrow> nat"
  assumes "\<And>k x. (k, x) \<in> dep_rel d \<Longrightarrow> f x < f k"
  shows "acyclic (dep_rel d)"
proof -
  have "(dep_rel d)\<inverse> \<subseteq> measure f" using assms by auto
  then have "wf ((dep_rel d)\<inverse>)" by (rule wf_subset[OF wf_measure])
  then have "acyclic ((dep_rel d)\<inverse>)" by (rule wf_acyclic)
  then show ?thesis by (simp only: acyclic_converse)
qed

lemma resolve_loop_done: "resolve_loop [] r = Some r"
  by (simp add: resolve_loop.simps)

lemma resolve_loop_round:
  assumes "d \<noteq> []" and "wave d = t" and "cleaned d t = d'"
  shows "resolve_loop d r = resolve_loop d' (r @ [t])"
  using assms by (subst resolve_loop.simps) (simp add: Let_def)

lemma copy_of_dict: "map (\<lambda>(k, v). (k, v)) deplist = deplist"
  by simp

text \<open>
  C2. The claim: on a mapping with no cycles the waves, concatenated, are a permutation of
  the keys, and every dependency that is a key stands in a strictly earlier wave. The
  source's first wave also holds every name that is listed as a dependency without being a
  key (\<^verbatim>\<open># values not in keys (items without dep)\<close>), so the waves hold more than the
  keys. What holds: on a dict with no cycle among its keys the resolver returns; its waves
  are pairwise disjoint and together hold exactly the keys and the names listed as
  dependencies; and every dependency of a key, key or not, stands in a wave with a strictly
  smaller index than the key's wave.
\<close>

theorem resolve_dependencies_acyclic:
  assumes "distinct (map fst deplist)" and "acyclic (dep_rel deplist)"
  shows "\<exists>r. resolve_dependencies deplist = Some r \<and> \<Union> (set r) = names deplist
           \<and> ordered_waves deplist r"
  using resolve_loop_acyclic[OF assms, of "[]"] by (simp add: resolve_dependencies_def)

theorem resolve_dependencies_acyclic_witness:
  "distinct (map fst [(''A'', {''B''}), (''B'', {}), (''C'', {''B''})])
   \<and> acyclic (dep_rel [(''A'', {''B''}), (''B'', {}), (''C'', {''B''})])
   \<and> (\<exists>r. resolve_dependencies [(''A'', {''B''}), (''B'', {}), (''C'', {''B''})] = Some r
          \<and> \<Union> (set r) = names [(''A'', {''B''}), (''B'', {}), (''C'', {''B''})]
          \<and> ordered_waves [(''A'', {''B''}), (''B'', {}), (''C'', {''B''})] r)"
proof -
  let ?D = "[(''A'', {''B''}), (''B'', {}), (''C'', {''B''})]"
  have d: "distinct (map fst ?D)" by simp
  have a: "acyclic (dep_rel ?D)"
    by (rule acyclic_by_rank[where f = "\<lambda>n. if n = ''B'' then 0 else 1"])
      (auto simp: dep_rel_def)
  from d a resolve_dependencies_acyclic[OF d a] show ?thesis by blast
qed

text \<open>
  On \<^verbatim>\<open>{A: {X}, B: {A}}\<close>, which has no cycle, the waves are \<^verbatim>\<open>[{X}, {A}, {B}]\<close>: they hold
  \<open>X\<close>, which is not a key, so no concatenation of them is a permutation of the keys.
\<close>

theorem resolve_dependencies_not_permutation:
  "distinct (map fst [(''A'', {''X''}), (''B'', {''A''})])
   \<and> acyclic (dep_rel [(''A'', {''X''}), (''B'', {''A''})])
   \<and> resolve_dependencies [(''A'', {''X''}), (''B'', {''A''})] = Some [{''X''}, {''A''}, {''B''}]
   \<and> \<Union> (set [{''X''}, {''A''}, {''B''}]) \<noteq> set (map fst [(''A'', {''X''}), (''B'', {''A''})])"
proof -
  let ?D = "[(''A'', {''X''}), (''B'', {''A''})]"
  have a: "acyclic (dep_rel ?D)"
    by (rule acyclic_by_rank[where f = "\<lambda>n. if n = ''B'' then 1 else 0"])
      (auto simp: dep_rel_def)
  have "resolve_loop ?D [] = resolve_loop [(''A'', {}), (''B'', {''A''})] [{''X''}]"
    by (rule resolve_loop_round[where r = "[]", simplified]) (auto simp: wave_def cleaned_def)
  also have "\<dots> = resolve_loop [(''B'', {})] [{''X''}, {''A''}]"
    by (rule resolve_loop_round[where r = "[{''X''}]", simplified]) (auto simp: wave_def cleaned_def)
  also have "\<dots> = resolve_loop [] [{''X''}, {''A''}, {''B''}]"
    by (rule resolve_loop_round[where r = "[{''X''}, {''A''}]", simplified])
      (auto simp: wave_def cleaned_def)
  finally have r: "resolve_dependencies ?D = Some [{''X''}, {''A''}, {''B''}]"
    by (simp add: resolve_dependencies_def resolve_loop_done)
  have "''X'' \<in> \<Union> (set [{''X''}, {''A''}, {''B''}])" by simp
  moreover have "''X'' \<notin> set (map fst ?D)" by simp
  ultimately have n: "\<Union> (set [{''X''}, {''A''}, {''B''}]) \<noteq> set (map fst ?D)" by metis
  have d: "distinct (map fst ?D)" by simp
  from d a r n show ?thesis by (intro conjI)
qed

subsection \<open>Names that are not keys\<close>

lemma names_cleaned: "names (cleaned d t) \<subseteq> names d"
  by (force simp: names_def in_cleaned)

lemma wave_names: "wave d \<subseteq> names d"
  by (force simp: wave_alt names_def)

lemma resolve_loop_waves:
  assumes "resolve_loop d r = Some y"
  shows "\<exists>ws. y = r @ ws \<and> \<Union> (set ws) \<subseteq> names d"
proof (rule resolve_loop.raw_induct
    [where P = "\<lambda>d r y. \<exists>ws. y = r @ ws \<and> \<Union> (set ws) \<subseteq> names d", OF _ assms])
  fix f :: "depdict \<Rightarrow> name set list \<Rightarrow> name set list option" and d r y
  assume IH: "\<And>d r y. f d r = Some y \<Longrightarrow> \<exists>ws. y = r @ ws \<and> \<Union> (set ws) \<subseteq> names d"
    and eq: "(if d = [] then Some r else let t = wave d in f (cleaned d t) (r @ [t])) = Some y"
  show "\<exists>ws. y = r @ ws \<and> \<Union> (set ws) \<subseteq> names d"
  proof (cases "d = []")
    case True
    with eq have "y = r @ []" by simp
    then show ?thesis by (intro exI[of _ "[]"]) simp
  next
    case False
    with eq have "f (cleaned d (wave d)) (r @ [wave d]) = Some y" by (simp add: Let_def)
    from IH[OF this] obtain ws where ws: "y = (r @ [wave d]) @ ws"
      "\<Union> (set ws) \<subseteq> names (cleaned d (wave d))" by blast
    from ws(2) names_cleaned[of d "wave d"] wave_names[of d]
    have "\<Union> (set (wave d # ws)) \<subseteq> names d" by auto
    with ws(1) show ?thesis by (intro exI[of _ "wave d # ws"]) simp
  qed
qed

text \<open>
  C3. The claim: a name that is listed as a dependency and is not a key appears in no wave,
  and \<^verbatim>\<open>{A: {X}}\<close> yields \<^verbatim>\<open>[{A}]\<close>. In the source such a name is put into the first
  wave. What holds: whenever the resolver returns, a name that is listed as a dependency
  and is not a key stands in the first wave and in no later wave.
\<close>

theorem resolve_dependencies_external_first:
  assumes ret: "resolve_dependencies deplist = Some r"
    and dep: "x \<in> \<Union> (snd ` set deplist)" and nokey: "x \<notin> fst ` set deplist"
  shows "r \<noteq> [] \<and> x \<in> r ! 0 \<and> x \<notin> \<Union> (set (tl r))"
proof -
  from dep have ne: "deplist \<noteq> []" by auto
  let ?t = "wave deplist"
  let ?d = "cleaned deplist ?t"
  from ret ne have "resolve_loop ?d ([] @ [?t]) = Some r"
    by (simp add: resolve_dependencies_def resolve_loop.simps[of deplist] Let_def)
  from resolve_loop_waves[OF this] obtain ws where ws: "r = [?t] @ ws" "\<Union> (set ws) \<subseteq> names ?d"
    by auto
  from closed_cleaned[of deplist] have "names ?d = fst ` set ?d" by (auto simp: names_def)
  also have "\<dots> \<subseteq> fst ` set deplist" by (auto simp: keys_cleaned) force
  finally have "x \<notin> names ?d" using nokey by auto
  with ws(2) have later: "x \<notin> \<Union> (set ws)" by auto
  from dep nokey have "x \<in> ?t" by (auto simp: wave_alt)
  with ws(1) later show ?thesis by simp
qed

theorem resolve_dependencies_external_first_witness:
  "resolve_dependencies [(''A'', {''X'', ''B''}), (''B'', {''Y''})] = Some [{''X'', ''Y''}, {''B''}, {''A''}]
   \<and> ''X'' \<in> [{''X'', ''Y''}, {''B''}, {''A''}] ! 0
   \<and> ''X'' \<notin> \<Union> (set (tl [{''X'', ''Y''}, {''B''}, {''A''}]))"
proof -
  let ?D = "[(''A'', {''X'', ''B''}), (''B'', {''Y''})]"
  have "resolve_loop ?D [] = resolve_loop [(''A'', {''B''}), (''B'', {})] [{''X'', ''Y''}]"
    by (rule resolve_loop_round[where r = "[]", simplified]) (auto simp: wave_def cleaned_def)
  also have "\<dots> = resolve_loop [(''A'', {})] [{''X'', ''Y''}, {''B''}]"
    by (rule resolve_loop_round[where r = "[{''X'', ''Y''}]", simplified])
      (auto simp: wave_def cleaned_def)
  also have "\<dots> = resolve_loop [] [{''X'', ''Y''}, {''B''}, {''A''}]"
    by (rule resolve_loop_round[where r = "[{''X'', ''Y''}, {''B''}]", simplified])
      (auto simp: wave_def cleaned_def)
  finally have r: "resolve_dependencies ?D = Some [{''X'', ''Y''}, {''B''}, {''A''}]"
    by (simp add: resolve_dependencies_def resolve_loop_done)
  have "''X'' \<in> \<Union> (snd ` set ?D)" "''X'' \<notin> fst ` set ?D" by auto
  from resolve_dependencies_external_first[OF r this] r show ?thesis by simp
qed

text \<open>
  On \<^verbatim>\<open>{A: {X}}\<close> the waves are \<^verbatim>\<open>[{X}, {A}]\<close>, not \<^verbatim>\<open>[{A}]\<close>: the name \<open>X\<close>, not a
  key, is in a wave.
\<close>

theorem resolve_dependencies_external_in_wave:
  "resolve_dependencies [(''A'', {''X''})] = Some [{''X''}, {''A''}]
   \<and> resolve_dependencies [(''A'', {''X''})] \<noteq> Some [{''A''}]
   \<and> ''X'' \<notin> fst ` set [(''A'', {''X''})]
   \<and> ''X'' \<in> \<Union> (set [{''X''}, {''A''}])"
proof -
  have "resolve_loop [(''A'', {''X''})] [] = resolve_loop [(''A'', {})] [{''X''}]"
    by (rule resolve_loop_round[where r = "[]", simplified]) (auto simp: wave_def cleaned_def)
  also have "\<dots> = resolve_loop [] [{''X''}, {''A''}]"
    by (rule resolve_loop_round[where r = "[{''X''}]", simplified]) (auto simp: wave_def cleaned_def)
  finally have "resolve_dependencies [(''A'', {''X''})] = Some [{''X''}, {''A''}]"
    by (simp add: resolve_dependencies_def resolve_loop_done)
  then show ?thesis by auto
qed

section \<open>The commit narrator and the publish step\<close>

text \<open>
  Python exceptions are values: a function that can raise returns \<open>py_error + 'a\<close>, with
  \<open>Inl\<close> the exception that leaves the function.
\<close>

datatype py_error =
  KeyError | ValueError | IndexError | FileNotFoundError | TypeError | AttributeError
  | OtherError string

text \<open>
  The status flags are the constants of pygit2 that the source names; their values are those
  of libgit2's \<^verbatim>\<open>git_status_t\<close>. A flag is a Python integer.
\<close>

definition GIT_STATUS_CURRENT :: int where "GIT_STATUS_CURRENT = 0"

definition GIT_STATUS_INDEX_NEW :: int where "GIT_STATUS_INDEX_NEW = 1"

definition GIT_STATUS_INDEX_MODIFIED :: int where "GIT_STATUS_INDEX_MODIFIED = 2"

definition GIT_STATUS_INDEX_DELETED :: int where "GIT_STATUS_INDEX_DELETED = 4"

definition GIT_STATUS_WT_NEW :: int where "GIT_STATUS_WT_NEW = 128"

definition GIT_STATUS_WT_MODIFIED :: int where "GIT_STATUS_WT_MODIFIED = 256"

definition GIT_STATUS_WT_DELETED :: int where "GIT_STATUS_WT_DELETED = 512"

lemmas git_status_defs = GIT_STATUS_CURRENT_def GIT_STATUS_INDEX_NEW_def GIT_STATUS_INDEX_MODIFIED_def
  GIT_STATUS_INDEX_DELETED_def GIT_STATUS_WT_NEW_def GIT_STATUS_WT_MODIFIED_def GIT_STATUS_WT_DELETED_def

text \<open>
  The two dict literals of \<^verbatim>\<open>construct_commit_msg\<close>, and \<^verbatim>\<open>m[k]\<close>, which raises
  \<^verbatim>\<open>KeyError\<close> on a key that is absent.
\<close>

definition status_str :: "(int \<times> string) list" where
  "status_str = [(GIT_STATUS_INDEX_NEW, ''Added ''), (GIT_STATUS_INDEX_MODIFIED, ''Updated ''),
                 (GIT_STATUS_INDEX_DELETED, ''Removed '')]"

definition status_str2 :: "(int \<times> string) list" where
  "status_str2 = [(GIT_STATUS_INDEX_NEW, '' additions''), (GIT_STATUS_INDEX_MODIFIED, '' updates''),
                  (GIT_STATUS_INDEX_DELETED, '' removals'')]"

definition getitem :: "('k \<times> 'v) list \<Rightarrow> 'k \<Rightarrow> py_error + 'v" where
  "getitem m k = (case map_of m k of None \<Rightarrow> Inl KeyError | Some v \<Rightarrow> Inr v)"

text \<open>\<^verbatim>\<open>"%d" % n\<close> for a length \<open>n\<close>: its decimal digits.\<close>

fun str_of_nat :: "nat \<Rightarrow> string" where
  "str_of_nat n =
     (if n < 10 then [''0123456789'' ! n]
      else str_of_nat (n div 10) @ [''0123456789'' ! (n mod 10)])"

declare str_of_nat.simps [simp del]

text \<open>
  \<^verbatim>\<open>os.path.commonpath\<close> of the POSIX path module, as the standard library defines it:
  \<^verbatim>\<open>ValueError\<close> on an empty sequence and on a mix of absolute and relative paths; the
  paths are split at \<^verbatim>\<open>/\<close>, empty and \<^verbatim>\<open>.\<close> components are dropped, and the result is
  the longest common prefix of the least and the greatest of the split paths (lists of
  strings in Python's lexicographic order), joined again. \<open>common_prefix\<close> is its
  \<^verbatim>\<open>for i, c in enumerate(s1)\<close> loop; \<^verbatim>\<open>s2[i]\<close> raises \<^verbatim>\<open>IndexError\<close> out of range.
\<close>

fun split_sep :: "char \<Rightarrow> string \<Rightarrow> string list" where
  "split_sep c [] = [[]]"
| "split_sep c (x # xs) =
     (if x = c then [] # split_sep c xs
      else (case split_sep c xs of w # ws \<Rightarrow> (x # w) # ws | [] \<Rightarrow> [[x]]))"

fun join :: "string \<Rightarrow> string list \<Rightarrow> string" where
  "join sep [] = []"
| "join sep [x] = x"
| "join sep (x # y # ys) = x @ sep @ join sep (y # ys)"

fun common_prefix :: "string list \<Rightarrow> string list \<Rightarrow> py_error + string list" where
  "common_prefix [] s2 = Inr []"
| "common_prefix (c # s1) [] = Inl IndexError"
| "common_prefix (c # s1) (c' # s2) =
     (if c \<noteq> c' then Inr []
      else (case common_prefix s1 s2 of Inl e \<Rightarrow> Inl e | Inr cs \<Rightarrow> Inr (c # cs)))"

definition commonpath :: "string list \<Rightarrow> py_error + string" where
  "commonpath paths =
     (case paths of
        [] \<Rightarrow> Inl ValueError
      | p # ps \<Rightarrow>
          (let split_paths = map (split_sep CHR ''/'') paths;
               isabs = set (map (\<lambda>p. take 1 p = ''/'') paths)
           in if card isabs \<noteq> 1 then Inl ValueError
              else
                (let split_paths = map (filter (\<lambda>c. c \<noteq> [] \<and> c \<noteq> ''.'')) split_paths;
                     s1 = fold min (tl split_paths) (hd split_paths);
                     s2 = fold max (tl split_paths) (hd split_paths)
                 in (case common_prefix s1 s2 of
                       Inl e \<Rightarrow> Inl e
                     | Inr common \<Rightarrow>
                         Inr ((if True \<in> isabs then ''/'' else '''') @ join ''/'' common)))))"

text \<open>
  \<^verbatim>\<open>os.path.basename\<close> (what follows the last \<^verbatim>\<open>/\<close>) and \<^verbatim>\<open>str.replace(old, new)\<close>, which
  replaces every occurrence from left to right.
\<close>

definition basename :: "string \<Rightarrow> string" where
  "basename p = rev (takeWhile (\<lambda>c. c \<noteq> CHR ''/'') (rev p))"

function str_replace :: "string \<Rightarrow> string \<Rightarrow> string \<Rightarrow> string" where
  "str_replace old new s =
     (if old = [] then new @ concat (map (\<lambda>c. c # new) s)
      else if s = [] then []
      else if prefix old s then new @ str_replace old new (drop (length old) s)
      else hd s # str_replace old new (tl s))"
  by pat_completeness auto
termination
  by (relation "measure (\<lambda>(old, new, s). length s)") auto

declare str_replace.simps [simp del]

text \<open>
  \<^verbatim>\<open>construct_commit_msg\<close>. \<open>headline\<close> is the \<^verbatim>\<open>if len(changes) > 1:\<close> block, \<open>change_lines\<close>
  the \<^verbatim>\<open>for c in changes:\<close> loop that appends one line per change to \<^verbatim>\<open>commit_msg\<close>.
\<close>

definition headline :: "(string \<times> int) list \<Rightarrow> py_error + string" where
  "headline changes =
     (if length changes > 1 then
        (case (if card (set (map snd changes)) = 1 then getitem status_str2 (snd (changes ! 0))
               else Inr '' changes'') of
           Inl e \<Rightarrow> Inl e
         | Inr word \<Rightarrow>
             (case commonpath (map fst changes) of
                Inl e \<Rightarrow> Inl e
              | Inr common_path \<Rightarrow>
                  Inr (''Performed '' @ str_of_nat (length changes) @ word @
                       (if common_path \<noteq> [] then '' in '' @ common_path @ '' hostgroup\<newline>\<newline>''
                        else ''\<newline>\<newline>''))))
      else Inr [])"

fun change_lines :: "string \<Rightarrow> (string \<times> int) list \<Rightarrow> py_error + string" where
  "change_lines commit_msg [] = Inr commit_msg"
| "change_lines commit_msg (c # cs) =
     (case getitem status_str (snd c) of
        Inl e \<Rightarrow> Inl e
      | Inr s \<Rightarrow>
          change_lines
            (commit_msg @ s @ str_replace ''.json'' '''' (basename (fst c)) @ ''\<newline>'') cs)"

definition construct_commit_msg :: "(string \<times> int) list \<Rightarrow> py_error + string" where
  "construct_commit_msg changes =
     (case headline changes of Inl e \<Rightarrow> Inl e | Inr commit_msg \<Rightarrow> change_lines commit_msg changes)"

text \<open>
  The repository as \<^verbatim>\<open>git_commit_and_push\<close> sees it: what \<^verbatim>\<open>repo.status().items()\<close> yields
  when the function is called, the commit messages on the local branch, and the commit
  messages of the branch at origin.
\<close>

record repo =
  status :: "(string \<times> int) list"
  history :: "string list"
  origin :: "string list"

text \<open>
  The version-control transport is not part of the source; what it does in one call is
  given from outside. \<^verbatim>\<open>repo.lookup_branch(GIT_BRANCH)\<close> finds the branch or returns
  \<^verbatim>\<open>None\<close>, on which \<^verbatim>\<open>branch.target\<close> raises \<^verbatim>\<open>AttributeError\<close>;
  \<^verbatim>\<open>repo.index.write_tree()\<close> and \<^verbatim>\<open>repo.create_commit(...)\<close> write the commit or raise;
  \<^verbatim>\<open>repo.remotes['origin'].push(...)\<close> updates the branch at origin to the local branch,
  or fails: it raises, or the update is refused and \<^verbatim>\<open>push_update_reference\<close> only logs it
  (no exception, \<open>PushFails None\<close>).
\<close>

datatype push_result = PushOk | PushFails "py_error option"

record transport =
  branch_found :: bool
  commit_error :: "py_error option"
  push_outcome :: push_result

text \<open>
  \<^verbatim>\<open>git_commit_and_push\<close> returns the exception that leaves it, if any, and the repository as
  it is then: a commit that was created stays when the push fails afterwards.
\<close>

definition git_commit_and_push :: "transport \<Rightarrow> repo \<Rightarrow> py_error option \<times> repo" where
  "git_commit_and_push tr repo =
     (let changes = filter (\<lambda>(filepath, flags). flags \<noteq> GIT_STATUS_CURRENT) (status repo)
      in if changes \<noteq> [] then
           (case construct_commit_msg changes of
              Inl e \<Rightarrow> (Some e, repo)
            | Inr commit_msg \<Rightarrow>
                if \<not> branch_found tr then (Some AttributeError, repo)
                else
                  (case commit_error tr of
                     Some e \<Rightarrow> (Some e, repo)
                   | None \<Rightarrow>
                       (case push_outcome tr of
                          PushOk \<Rightarrow>
                            (None, repo\<lparr>history := history repo @ [commit_msg],
                                        origin := history repo @ [commit_msg]\<rparr>)
                        | PushFails e \<Rightarrow>
                            (e, repo\<lparr>history := history repo @ [commit_msg]\<rparr>))))
         else (None, repo))"

text \<open>
  The Publish direction: \<^verbatim>\<open>zbxtpl2git.py\<close> runs \<^verbatim>\<open>repo.index.add_all()\<close> and
  \<^verbatim>\<open>repo.index.write()\<close> right before its only call of \<^verbatim>\<open>git_commit_and_push\<close>, so every
  record is Unchanged (\<^verbatim>\<open>GIT_STATUS_CURRENT\<close>) or staged: Added, Modified or Removed, one of
  the three index flags. Git reports paths relative to the work tree.
\<close>

definition staged :: "repo \<Rightarrow> bool" where
  "staged repo =
     (\<forall>(filepath, flags) \<in> set (status repo).
        flags \<in> {GIT_STATUS_CURRENT, GIT_STATUS_INDEX_NEW, GIT_STATUS_INDEX_MODIFIED,
                  GIT_STATUS_INDEX_DELETED}
        \<and> take 1 filepath \<noteq> ''/'')"

subsection \<open>Facts about the commit message\<close>

lemma map_of_status_str:
  "map_of status_str f = None \<longleftrightarrow>
     f \<notin> {GIT_STATUS_INDEX_NEW, GIT_STATUS_INDEX_MODIFIED, GIT_STATUS_INDEX_DELETED}"
  by (auto simp: status_str_def)

lemma map_of_status_str2:
  "map_of status_str2 f = None \<longleftrightarrow>
     f \<notin> {GIT_STATUS_INDEX_NEW, GIT_STATUS_INDEX_MODIFIED, GIT_STATUS_INDEX_DELETED}"
  by (auto simp: status_str2_def)

lemma change_lines_append:
  "change_lines acc cs = (case change_lines [] cs of Inl e \<Rightarrow> Inl e | Inr ls \<Rightarrow> Inr (acc @ ls))"
proof (induction cs arbitrary: acc)
  case Nil
  then show ?case by simp
next
  case (Cons c cs)
  show ?case
  proof (cases "getitem status_str (snd c)")
    case (Inl e)
    then show ?thesis by simp
  next
    case (Inr s)
    let ?l = "s @ str_replace ''.json'' '''' (basename (fst c)) @ ''\<newline>''"
    have "change_lines acc (c # cs) = change_lines (acc @ ?l) cs" using Inr by simp
    also have "\<dots> = (case change_lines [] cs of Inl e \<Rightarrow> Inl e | Inr ls \<Rightarrow> Inr ((acc @ ?l) @ ls))"
      by (rule Cons.IH)
    finally have l: "change_lines acc (c # cs) =
        (case change_lines [] cs of Inl e \<Rightarrow> Inl e | Inr ls \<Rightarrow> Inr (acc @ ?l @ ls))" by (simp split: sum.splits)
    have "change_lines [] (c # cs) = change_lines ([] @ ?l) cs" using Inr by simp
    also have "\<dots> = (case change_lines [] cs of Inl e \<Rightarrow> Inl e | Inr ls \<Rightarrow> Inr (([] @ ?l) @ ls))"
      by (rule Cons.IH)
    finally have r: "change_lines [] (c # cs) =
        (case change_lines [] cs of Inl e \<Rightarrow> Inl e | Inr ls \<Rightarrow> Inr (?l @ ls))" by (simp split: sum.splits)
    show ?thesis unfolding l r by (simp split: sum.splits)
  qed
qed

lemma change_lines_bad_flag:
  assumes "c \<in> set cs" and "map_of status_str (snd c) = None"
  shows "change_lines acc cs = Inl KeyError"
  using assms
proof (induction cs arbitrary: acc)
  case Nil
  then show ?case by simp
next
  case (Cons a cs)
  show ?case
  proof (cases "map_of status_str (snd a)")
    case None
    then show ?thesis by (simp add: getitem_def)
  next
    case (Some s)
    with Cons.prems have "c \<in> set cs" by auto
    from Cons.IH[OF this Cons.prems(2)] Some show ?thesis by (simp add: getitem_def)
  qed
qed

lemma change_lines_good_flags:
  assumes "\<forall>c \<in> set cs. map_of status_str (snd c) \<noteq> None"
  shows "\<exists>msg. change_lines acc cs = Inr msg"
  using assms
proof (induction cs arbitrary: acc)
  case Nil
  then show ?case by simp
next
  case (Cons a cs)
  then obtain s where "map_of status_str (snd a) = Some s" by auto
  with Cons show ?case by (simp add: getitem_def)
qed

lemma common_prefix_error: "common_prefix a b = Inl e \<Longrightarrow> b < a"
proof (induction a b rule: common_prefix.induct)
  case (1 s2)
  then show ?case by simp
next
  case (2 c s1)
  then show ?case by simp
next
  case (3 c s1 c' s2)
  then show ?case by (auto split: if_splits sum.splits)
qed

lemma fold_min_le: "fold min xs (x :: 'a :: linorder) \<le> x"
proof (induction xs arbitrary: x)
  case Nil
  then show ?case by simp
next
  case (Cons a xs)
  have "fold min xs (min a x) \<le> min a x" by (rule Cons.IH)
  then show ?case by simp
qed

lemma fold_max_ge: "(x :: 'a :: linorder) \<le> fold max xs x"
proof (induction xs arbitrary: x)
  case Nil
  then show ?case by simp
next
  case (Cons a xs)
  have "max a x \<le> fold max xs (max a x)" by (rule Cons.IH)
  then show ?case by simp
qed

lemma common_prefix_min_max:
  "\<exists>common. common_prefix (fold min xs x) (fold max xs x) = Inr common"
proof (cases "common_prefix (fold min xs x) (fold max xs x)")
  case (Inl e)
  from common_prefix_error[OF this] fold_min_le[of xs x] fold_max_ge[of x xs]
  show ?thesis by simp
next
  case (Inr common)
  then show ?thesis by simp
qed

lemma commonpath_cases:
  "commonpath paths =
     (if paths = [] \<or> card (set (map (\<lambda>p. take 1 p = ''/'') paths)) \<noteq> 1 then Inl ValueError
      else commonpath paths) \<and>
   (paths \<noteq> [] \<and> card (set (map (\<lambda>p. take 1 p = ''/'') paths)) = 1 \<longrightarrow>
      (\<exists>cp. commonpath paths = Inr cp))"
proof (cases paths)
  case Nil
  then show ?thesis by (simp add: commonpath_def)
next
  case (Cons p ps)
  let ?sp = "map (filter (\<lambda>c. c \<noteq> [] \<and> c \<noteq> ''.'')) (map (split_sep CHR ''/'') paths)"
  from common_prefix_min_max[of "tl ?sp" "hd ?sp"] obtain common where
    "common_prefix (fold min (tl ?sp) (hd ?sp)) (fold max (tl ?sp) (hd ?sp)) = Inr common" ..
  with Cons show ?thesis by (simp add: commonpath_def Let_def)
qed

lemma commonpath_ValueError:
  "paths = [] \<or> card (set (map (\<lambda>p. take 1 p = ''/'') paths)) \<noteq> 1 \<Longrightarrow> commonpath paths = Inl ValueError"
  using commonpath_cases[of paths] by presburger

lemma commonpath_ok:
  "paths \<noteq> [] \<Longrightarrow> card (set (map (\<lambda>p. take 1 p = ''/'') paths)) = 1 \<Longrightarrow> \<exists>cp. commonpath paths = Inr cp"
  using commonpath_cases[of paths] by blast

lemma construct_commit_msg_total:
  assumes ne: "changes \<noteq> []"
    and flags: "\<forall>(filepath, flags) \<in> set changes.
        flags \<in> {GIT_STATUS_INDEX_NEW, GIT_STATUS_INDEX_MODIFIED, GIT_STATUS_INDEX_DELETED}"
    and rel: "\<forall>(filepath, flags) \<in> set changes. take 1 filepath \<noteq> ''/''"
  shows "\<exists>msg. construct_commit_msg changes = Inr msg"
proof -
  from flags have good: "\<forall>c \<in> set changes. map_of status_str (snd c) \<noteq> None"
    by (auto simp: map_of_status_str)
  from flags have good2: "\<forall>c \<in> set changes. map_of status_str2 (snd c) \<noteq> None"
    by (auto simp: map_of_status_str2)
  from ne rel have "set (map (\<lambda>p. take 1 p = ''/'') (map fst changes)) = {False}"
    by (cases changes) auto
  then have "card (set (map (\<lambda>p. take 1 p = ''/'') (map fst changes))) = 1" by simp
  with ne obtain cp where cp: "commonpath (map fst changes) = Inr cp"
    using commonpath_ok[of "map fst changes"] by auto
  from ne have "changes ! 0 \<in> set changes" by (cases changes) auto
  with good2 obtain w where w: "getitem status_str2 (snd (changes ! 0)) = Inr w"
    by (auto simp: getitem_def)
  from cp w have "\<exists>h. headline changes = Inr h"
    by (simp add: headline_def)
  then obtain h where "headline changes = Inr h" ..
  with change_lines_good_flags[OF good, of h] show ?thesis
    by (auto simp: construct_commit_msg_def)
qed

text \<open>
  C6. The claim: when the paths of more than one change share no common parent path the
  headline says "changes", and when they do the headline names the shared scope. In the
  source the word depends on the statuses, not on the paths: it is the plural status word
  when all changes have one status and " changes" otherwise; the scope " in P hostgroup" is
  added exactly when \<^verbatim>\<open>os.path.commonpath\<close> is a non-empty P. What holds: whenever
  \<^verbatim>\<open>construct_commit_msg\<close> returns a message for more than one change, the message is
  "Performed n", the word chosen by the statuses, the scope when the common path is not
  empty, a blank line, and the per-change lines.
\<close>

theorem construct_commit_msg_headline:
  assumes "1 < length changes" and "construct_commit_msg changes = Inr msg"
  shows "\<exists>common_path word ls.
           commonpath (map fst changes) = Inr common_path
         \<and> (if card (set (map snd changes)) = 1
              then map_of status_str2 (snd (changes ! 0)) = Some word
              else word = '' changes'')
         \<and> change_lines [] changes = Inr ls
         \<and> msg = ''Performed '' @ str_of_nat (length changes) @ word
                 @ (if common_path = [] then [] else '' in '' @ common_path @ '' hostgroup'')
                 @ ''\<newline>\<newline>'' @ ls"
proof -
  obtain h where h: "headline changes = Inr h" and cl: "change_lines h changes = Inr msg"
    using assms(2) by (auto simp: construct_commit_msg_def split: sum.splits)
  let ?w = "if card (set (map snd changes)) = 1 then getitem status_str2 (snd (changes ! 0))
            else Inr '' changes''"
  from h assms(1) obtain word where w: "?w = Inr word"
    by (auto simp: headline_def split: sum.splits if_splits)
  from h assms(1) w obtain cp where cp: "commonpath (map fst changes) = Inr cp"
    by (auto simp: headline_def split: sum.splits if_splits)
  from h assms(1) w cp have hv: "h = ''Performed '' @ str_of_nat (length changes) @ word
      @ (if cp = [] then [] else '' in '' @ cp @ '' hostgroup'') @ ''\<newline>\<newline>''"
    by (auto simp: headline_def split: if_splits)
  from cl obtain ls where ls: "change_lines [] changes = Inr ls" "msg = h @ ls"
    by (subst (asm) change_lines_append) (auto split: sum.splits)
  from w have wc: "if card (set (map snd changes)) = 1
      then map_of status_str2 (snd (changes ! 0)) = Some word else word = '' changes''"
    by (auto simp: getitem_def split: if_splits option.splits)
  from cp wc ls hv show ?thesis by auto
qed

theorem construct_commit_msg_headline_witness:
  "1 < length [(''x/a.json'', GIT_STATUS_INDEX_NEW), (''x/b.json'', GIT_STATUS_INDEX_DELETED)]
   \<and> construct_commit_msg [(''x/a.json'', GIT_STATUS_INDEX_NEW), (''x/b.json'', GIT_STATUS_INDEX_DELETED)]
       = Inr ''Performed 2 changes in x hostgroup\<newline>\<newline>Added a\<newline>Removed b\<newline>''
   \<and> (\<exists>common_path word ls.
           commonpath (map fst [(''x/a.json'', GIT_STATUS_INDEX_NEW), (''x/b.json'', GIT_STATUS_INDEX_DELETED)])
             = Inr common_path
         \<and> (if card (set (map snd [(''x/a.json'', GIT_STATUS_INDEX_NEW), (''x/b.json'', GIT_STATUS_INDEX_DELETED)])) = 1
              then map_of status_str2
                     (snd ([(''x/a.json'', GIT_STATUS_INDEX_NEW), (''x/b.json'', GIT_STATUS_INDEX_DELETED)] ! 0))
                   = Some word
              else word = '' changes'')
         \<and> change_lines [] [(''x/a.json'', GIT_STATUS_INDEX_NEW), (''x/b.json'', GIT_STATUS_INDEX_DELETED)]
             = Inr ls
         \<and> ''Performed 2 changes in x hostgroup\<newline>\<newline>Added a\<newline>Removed b\<newline>''
             = ''Performed ''
               @ str_of_nat (length [(''x/a.json'', GIT_STATUS_INDEX_NEW), (''x/b.json'', GIT_STATUS_INDEX_DELETED)])
               @ word @ (if common_path = [] then [] else '' in '' @ common_path @ '' hostgroup'')
               @ ''\<newline>\<newline>'' @ ls)"
proof -
  let ?C = "[(''x/a.json'', GIT_STATUS_INDEX_NEW), (''x/b.json'', GIT_STATUS_INDEX_DELETED)]"
  have l: "1 < length ?C" by simp
  have m: "construct_commit_msg ?C
      = Inr ''Performed 2 changes in x hostgroup\<newline>\<newline>Added a\<newline>Removed b\<newline>''"
    by code_simp
  from l m construct_commit_msg_headline[OF l m] show ?thesis by (intro conjI)
qed

text \<open>
  Two additions under \<^verbatim>\<open>x/\<close> and \<^verbatim>\<open>y/\<close> share no parent path, and the headline is
  "Performed 2 additions": it does not say "changes".
\<close>

theorem construct_commit_msg_no_common_path:
  "commonpath (map fst [(''x/a.json'', GIT_STATUS_INDEX_NEW), (''y/b.json'', GIT_STATUS_INDEX_NEW)]) = Inr []
   \<and> construct_commit_msg [(''x/a.json'', GIT_STATUS_INDEX_NEW), (''y/b.json'', GIT_STATUS_INDEX_NEW)]
       = Inr ''Performed 2 additions\<newline>\<newline>Added a\<newline>Added b\<newline>''"
  by code_simp

text \<open>
  C7. On \<^verbatim>\<open>[(path/a.json, Added), (path/b.json, Added)]\<close> the message is the headline
  "Performed 2 additions in path hostgroup", a blank line, and the lines "Added a" and
  "Added b"; and on a list of exactly one change there is no headline: the message is that
  change's line alone (or the \<^verbatim>\<open>KeyError\<close> of its status lookup).
\<close>

theorem construct_commit_msg_scenario:
  "construct_commit_msg [(''path/a.json'', GIT_STATUS_INDEX_NEW), (''path/b.json'', GIT_STATUS_INDEX_NEW)]
     = Inr ''Performed 2 additions in path hostgroup\<newline>\<newline>Added a\<newline>Added b\<newline>''
   \<and> (\<forall>filepath flags. construct_commit_msg [(filepath, flags)] =
         (case map_of status_str flags of
            None \<Rightarrow> Inl KeyError
          | Some verb \<Rightarrow>
              Inr (verb @ str_replace ''.json'' '''' (basename filepath) @ ''\<newline>'')))"
proof -
  have a: "construct_commit_msg [(''path/a.json'', GIT_STATUS_INDEX_NEW), (''path/b.json'', GIT_STATUS_INDEX_NEW)]
     = Inr ''Performed 2 additions in path hostgroup\<newline>\<newline>Added a\<newline>Added b\<newline>''"
    by code_simp
  have b: "construct_commit_msg [(filepath, flags)] =
         (case map_of status_str flags of
            None \<Rightarrow> Inl KeyError
          | Some verb \<Rightarrow>
              Inr (verb @ str_replace ''.json'' '''' (basename filepath) @ ''\<newline>''))"
    for filepath flags
    by (simp add: construct_commit_msg_def headline_def getitem_def split: option.splits)
  from a b show ?thesis by blast
qed

text \<open>
  C10. The claim: on every non-empty change list with a flag that is none of the three index
  flags the dict lookup raises \<^verbatim>\<open>KeyError\<close>. One case raises something else first: with
  more than one change, flags that are not all equal, and absolute paths mixed with relative
  ones, \<^verbatim>\<open>os.path.commonpath\<close> raises \<^verbatim>\<open>ValueError\<close> before the per-change lookup is
  reached. What holds: such a list never yields a message; the exception is that
  \<^verbatim>\<open>ValueError\<close> in the case just described and \<^verbatim>\<open>KeyError\<close> in every other.
\<close>

theorem construct_commit_msg_bad_flag:
  assumes "(filepath, flags) \<in> set changes"
    and "flags \<notin> {GIT_STATUS_INDEX_NEW, GIT_STATUS_INDEX_MODIFIED, GIT_STATUS_INDEX_DELETED}"
  shows "construct_commit_msg changes =
           (if 1 < length changes \<and> card (set (map snd changes)) \<noteq> 1
               \<and> card (set (map (\<lambda>p. take 1 p = ''/'') (map fst changes))) \<noteq> 1
            then Inl ValueError else Inl KeyError)"
proof -
  from assms(2) have bad: "map_of status_str flags = None" "map_of status_str2 flags = None"
    by (simp_all add: map_of_status_str map_of_status_str2)
  from assms(1) bad(1) have lines: "change_lines acc changes = Inl KeyError" for acc
    by (intro change_lines_bad_flag[of "(filepath, flags)"]) simp_all
  from assms(1) have ne: "changes \<noteq> []" by auto
  show ?thesis
  proof (cases "1 < length changes")
    case False
    then have "headline changes = Inr []" by (simp add: headline_def)
    with lines False show ?thesis by (simp add: construct_commit_msg_def)
  next
    case True
    show ?thesis
    proof (cases "card (set (map snd changes)) = 1")
      case c1: True
      then obtain g where g: "set (map snd changes) = {g}" by (auto simp: card_1_singleton_iff)
      from assms(1) have "flags \<in> set (map snd changes)" by force
      with g have "g = flags" by simp
      moreover from ne have "snd (changes ! 0) \<in> set (map snd changes)"
        by (cases changes) auto
      ultimately have "snd (changes ! 0) = flags" using g by simp
      with bad(2) True c1 have "headline changes = Inl KeyError"
        by (simp add: headline_def getitem_def)
      with c1 show ?thesis by (simp add: construct_commit_msg_def)
    next
      case c2: False
      show ?thesis
      proof (cases "card (set (map (\<lambda>p. take 1 p = ''/'') (map fst changes))) = 1")
        case True
        with ne obtain cp where "commonpath (map fst changes) = Inr cp"
          using commonpath_ok[of "map fst changes"] by auto
        with \<open>1 < length changes\<close> c2 obtain h where "headline changes = Inr h"
          by (simp add: headline_def)
        with lines True show ?thesis by (simp add: construct_commit_msg_def)
      next
        case False
        then have "commonpath (map fst changes) = Inl ValueError"
          by (intro commonpath_ValueError) simp
        with \<open>1 < length changes\<close> c2 have "headline changes = Inl ValueError"
          by (simp add: headline_def)
        with \<open>1 < length changes\<close> c2 False show ?thesis by (simp add: construct_commit_msg_def)
      qed
    qed
  qed
qed

theorem construct_commit_msg_bad_flag_witness:
  "construct_commit_msg [(''a.json'', GIT_STATUS_INDEX_NEW), (''b.json'', GIT_STATUS_WT_NEW)] = Inl KeyError"
proof -
  let ?C = "[(''a.json'', GIT_STATUS_INDEX_NEW), (''b.json'', GIT_STATUS_WT_NEW)]"
  have m: "(''b.json'', GIT_STATUS_WT_NEW) \<in> set ?C" by simp
  have b: "GIT_STATUS_WT_NEW \<notin> {GIT_STATUS_INDEX_NEW, GIT_STATUS_INDEX_MODIFIED, GIT_STATUS_INDEX_DELETED}"
    by (simp add: git_status_defs)
  have c: "card (set (map (\<lambda>p. take 1 p = ''/'') (map fst ?C))) = 1" by simp
  from construct_commit_msg_bad_flag[OF m b] c show ?thesis by simp
qed

text \<open>
  The list \<^verbatim>\<open>[("/a.json", INDEX_NEW), ("b.json", WT_NEW)]\<close> holds a working-tree flag, and
  the call raises \<^verbatim>\<open>ValueError\<close>, not \<^verbatim>\<open>KeyError\<close>.
\<close>

theorem construct_commit_msg_value_error:
  "(''b.json'', GIT_STATUS_WT_NEW) \<in> set [(''/a.json'', GIT_STATUS_INDEX_NEW), (''b.json'', GIT_STATUS_WT_NEW)]
   \<and> GIT_STATUS_WT_NEW \<notin> {GIT_STATUS_INDEX_NEW, GIT_STATUS_INDEX_MODIFIED, GIT_STATUS_INDEX_DELETED}
   \<and> construct_commit_msg [(''/a.json'', GIT_STATUS_INDEX_NEW), (''b.json'', GIT_STATUS_WT_NEW)]
       = Inl ValueError
   \<and> construct_commit_msg [(''/a.json'', GIT_STATUS_INDEX_NEW), (''b.json'', GIT_STATUS_WT_NEW)]
       \<noteq> Inl KeyError"
proof -
  have "construct_commit_msg [(''/a.json'', GIT_STATUS_INDEX_NEW), (''b.json'', GIT_STATUS_WT_NEW)]
       = Inl ValueError" by code_simp
  then show ?thesis by (simp add: git_status_defs)
qed

subsection \<open>Commit and push\<close>

text \<open>
  C8. In the Publish direction, where every record is Unchanged or staged, and with a
  transport that finds the branch and writes the commit, \<^verbatim>\<open>git_commit_and_push\<close> creates
  a commit (the history grows by exactly one message) if and only if at least one record is
  not Unchanged. When every record is Unchanged it calls nothing and returns the repository
  as it was, whatever the transport would do; and whatever the records and the transport
  are, the history changes only if some record is not Unchanged. When the push is accepted
  the branch at origin is the local branch with the new commit.
\<close>

theorem git_commit_and_push_commit_iff:
  "((\<forall>(filepath, flags) \<in> set (status repo). flags = GIT_STATUS_CURRENT)
      \<longrightarrow> git_commit_and_push tr repo = (None, repo))
   \<and> (staged repo \<and> branch_found tr \<and> commit_error tr = None
      \<longrightarrow> ((\<exists>msg. history (snd (git_commit_and_push tr repo)) = history repo @ [msg])
            \<longleftrightarrow> (\<exists>(filepath, flags) \<in> set (status repo). flags \<noteq> GIT_STATUS_CURRENT)))
   \<and> (history (snd (git_commit_and_push tr repo)) \<noteq> history repo
      \<longrightarrow> (\<exists>(filepath, flags) \<in> set (status repo). flags \<noteq> GIT_STATUS_CURRENT))
   \<and> (staged repo \<and> branch_found tr \<and> commit_error tr = None \<and> push_outcome tr = PushOk
        \<and> (\<exists>(filepath, flags) \<in> set (status repo). flags \<noteq> GIT_STATUS_CURRENT)
      \<longrightarrow> fst (git_commit_and_push tr repo) = None
          \<and> origin (snd (git_commit_and_push tr repo)) = history (snd (git_commit_and_push tr repo)))"
proof -
  let ?changes = "filter (\<lambda>(filepath, flags). flags \<noteq> GIT_STATUS_CURRENT) (status repo)"
  let ?some = "\<exists>(filepath, flags) \<in> set (status repo). flags \<noteq> GIT_STATUS_CURRENT"
  have ch: "?changes \<noteq> [] \<longleftrightarrow> ?some"
    by (auto simp: filter_empty_conv)
  have a: "git_commit_and_push tr repo = (None, repo)"
    if "\<forall>(filepath, flags) \<in> set (status repo). flags = GIT_STATUS_CURRENT"
  proof -
    from that ch have "?changes = []" by auto
    then show ?thesis by (simp add: git_commit_and_push_def)
  qed
  have msg: "\<exists>msg. construct_commit_msg ?changes = Inr msg" if st: "staged repo" and some: ?some
  proof -
    from some ch have ne: "?changes \<noteq> []" by simp
    from st have f: "\<forall>(filepath, flags) \<in> set ?changes.
        flags \<in> {GIT_STATUS_INDEX_NEW, GIT_STATUS_INDEX_MODIFIED, GIT_STATUS_INDEX_DELETED}"
      by (auto simp: staged_def)
    from st have r: "\<forall>(filepath, flags) \<in> set ?changes. take 1 filepath \<noteq> ''/''"
      by (auto simp: staged_def)
    from construct_commit_msg_total[OF ne f r] show ?thesis .
  qed
  have c: "history (snd (git_commit_and_push tr repo)) \<noteq> history repo \<longrightarrow> ?some"
  proof (cases "?changes = []")
    case True
    then show ?thesis by (simp add: git_commit_and_push_def)
  next
    case False
    with ch show ?thesis by simp
  qed
  have b: "(\<exists>msg. history (snd (git_commit_and_push tr repo)) = history repo @ [msg]) \<longleftrightarrow> ?some"
    if st: "staged repo" and br: "branch_found tr" and co: "commit_error tr = None"
  proof
    assume "\<exists>msg. history (snd (git_commit_and_push tr repo)) = history repo @ [msg]"
    then have "history (snd (git_commit_and_push tr repo)) \<noteq> history repo" by auto
    with c show ?some by blast
  next
    assume some: ?some
    with ch have ne: "?changes \<noteq> []" by simp
    from msg[OF st some] obtain m where m: "construct_commit_msg ?changes = Inr m" ..
    from ne m br co have "history (snd (git_commit_and_push tr repo)) = history repo @ [m]"
      by (cases "push_outcome tr") (simp_all add: git_commit_and_push_def Let_def)
    then show "\<exists>msg. history (snd (git_commit_and_push tr repo)) = history repo @ [msg]" ..
  qed
  have d: "fst (git_commit_and_push tr repo) = None
          \<and> origin (snd (git_commit_and_push tr repo)) = history (snd (git_commit_and_push tr repo))"
    if st: "staged repo" and br: "branch_found tr" and co: "commit_error tr = None"
      and pu: "push_outcome tr = PushOk" and some: ?some
  proof -
    from some ch have ne: "?changes \<noteq> []" by simp
    from msg[OF st some] obtain m where m: "construct_commit_msg ?changes = Inr m" ..
    from ne m br co pu show ?thesis by (simp add: git_commit_and_push_def Let_def)
  qed
  from a b c d show ?thesis by blast
qed

theorem git_commit_and_push_commit_iff_witness:
  "git_commit_and_push \<lparr>branch_found = True, commit_error = None, push_outcome = PushOk\<rparr>
       \<lparr>status = [(''t/a.json'', GIT_STATUS_CURRENT)], history = [''Initial commit''],
        origin = [''Initial commit'']\<rparr>
     = (None, \<lparr>status = [(''t/a.json'', GIT_STATUS_CURRENT)], history = [''Initial commit''],
               origin = [''Initial commit'']\<rparr>)
   \<and> staged \<lparr>status = [(''t/a.json'', GIT_STATUS_CURRENT), (''t/b.json'', GIT_STATUS_INDEX_MODIFIED)],
              history = [''Initial commit''], origin = [''Initial commit'']\<rparr>
   \<and> (\<exists>msg. history (snd (git_commit_and_push
               \<lparr>branch_found = True, commit_error = None, push_outcome = PushOk\<rparr>
               \<lparr>status = [(''t/a.json'', GIT_STATUS_CURRENT), (''t/b.json'', GIT_STATUS_INDEX_MODIFIED)],
                history = [''Initial commit''], origin = [''Initial commit'']\<rparr>))
             = [''Initial commit''] @ [msg])
   \<and> git_commit_and_push \<lparr>branch_found = True, commit_error = None, push_outcome = PushOk\<rparr>
       \<lparr>status = [(''t/a.json'', GIT_STATUS_CURRENT), (''t/b.json'', GIT_STATUS_INDEX_MODIFIED)],
        history = [''Initial commit''], origin = [''Initial commit'']\<rparr>
     = (None, \<lparr>status = [(''t/a.json'', GIT_STATUS_CURRENT), (''t/b.json'', GIT_STATUS_INDEX_MODIFIED)],
               history = [''Initial commit'', ''Updated b\<newline>''],
               origin = [''Initial commit'', ''Updated b\<newline>'']\<rparr>)"
proof -
  let ?tr = "\<lparr>branch_found = True, commit_error = None, push_outcome = PushOk\<rparr>"
  let ?R0 = "\<lparr>status = [(''t/a.json'', GIT_STATUS_CURRENT)], history = [''Initial commit''],
              origin = [''Initial commit'']\<rparr>"
  let ?R1 = "\<lparr>status = [(''t/a.json'', GIT_STATUS_CURRENT), (''t/b.json'', GIT_STATUS_INDEX_MODIFIED)],
              history = [''Initial commit''], origin = [''Initial commit'']\<rparr>"
  have h0: "\<forall>(filepath, flags) \<in> set (status ?R0). flags = GIT_STATUS_CURRENT" by simp
  have h1: "\<exists>(filepath, flags) \<in> set (status ?R1). flags \<noteq> GIT_STATUS_CURRENT"
    by (simp add: git_status_defs)
  have h2: "staged ?R1" by (simp add: staged_def)
  have h3: "branch_found ?tr \<and> commit_error ?tr = None" by simp
  from git_commit_and_push_commit_iff[of ?R0 ?tr] h0
  have a: "git_commit_and_push ?tr ?R0 = (None, ?R0)" by blast
  from git_commit_and_push_commit_iff[of ?R1 ?tr] h1 h2 h3
  have "\<exists>msg. history (snd (git_commit_and_push ?tr ?R1)) = history ?R1 @ [msg]" by blast
  then have b: "\<exists>msg. history (snd (git_commit_and_push ?tr ?R1)) = [''Initial commit''] @ [msg]"
    by simp
  have c: "git_commit_and_push ?tr ?R1
     = (None, \<lparr>status = [(''t/a.json'', GIT_STATUS_CURRENT), (''t/b.json'', GIT_STATUS_INDEX_MODIFIED)],
               history = [''Initial commit'', ''Updated b\<newline>''],
               origin = [''Initial commit'', ''Updated b\<newline>'']\<rparr>)"
    by code_simp
  from a h2 b c show ?thesis by (intro conjI)
qed

section \<open>Applying the tree to the remote system\<close>

text \<open>
  A template of an export file: its name and, when the key \<^verbatim>\<open>templates\<close> is present, the list
  of dicts that name the templates it is linked to. A file on disk holds the list
  \<^verbatim>\<open>template_json['zabbix_export']['templates']\<close>; opening a file that is absent raises.
\<close>

record template =
  tpl_name :: name
  tpl_templates :: "(string \<times> string) list list option"

type_synonym filesystem = "string \<Rightarrow> template list option"

definition read_templates :: "filesystem \<Rightarrow> string \<Rightarrow> py_error + template list" where
  "read_templates fs template_file =
     (case fs template_file of None \<Rightarrow> Inl FileNotFoundError | Some templates \<Rightarrow> Inr templates)"

text \<open>
  The remote system: the templates it holds, each with its id, and the calls of the remote
  API issued so far. \<^verbatim>\<open>ZAPI.template.get\<close> with a filter on names returns the id and name of
  each template of that name; \<^verbatim>\<open>ZAPI.template.delete\<close> removes the templates of the ids.
\<close>

datatype api_call = TemplateGet "name list" | TemplateDelete "string list" | ConfImport "template list"

record zabbix =
  remote_templates :: "(name \<times> string) list"
  calls :: "api_call list"

definition template_get :: "name list \<Rightarrow> zabbix \<Rightarrow> (string \<times> name) list \<times> zabbix" where
  "template_get names' z =
     (map (\<lambda>(n, i). (i, n)) (filter (\<lambda>(n, i). n \<in> set names') (remote_templates z)),
      z\<lparr>calls := calls z @ [TemplateGet names']\<rparr>)"

definition template_delete :: "string list \<Rightarrow> zabbix \<Rightarrow> zabbix" where
  "template_delete ids z =
     z\<lparr>remote_templates := filter (\<lambda>(n, i). i \<notin> set ids) (remote_templates z),
       calls := calls z @ [TemplateDelete ids]\<rparr>"

text \<open>
  \<^verbatim>\<open>zabbix_remove_templates\<close>: \<open>remove_names\<close> is its loop that builds the dict
  \<^verbatim>\<open>templates\<close>; then the ids are looked up and the names are logged. The line
  \<^verbatim>\<open>#ZAPI.template.delete(*[ t['templateid'] for t in templateinfo ])\<close> is a comment in the
  source, so the model issues no such call.
\<close>

fun remove_names :: "filesystem \<Rightarrow> string list \<Rightarrow> (name \<times> string) list
    \<Rightarrow> py_error + (name \<times> string) list" where
  "remove_names fs [] templates = Inr templates"
| "remove_names fs (template_file # fs') templates =
     (case read_templates fs template_file of
        Inl e \<Rightarrow> Inl e
      | Inr template_json \<Rightarrow>
          remove_names fs fs'
            (fold (\<lambda>template. AList.update (tpl_name template) template_file) template_json templates))"

definition zabbix_remove_templates :: "filesystem \<Rightarrow> string list \<Rightarrow> zabbix \<Rightarrow> py_error + zabbix" where
  "zabbix_remove_templates fs template_files z =
     (case remove_names fs template_files [] of
        Inl e \<Rightarrow> Inl e
      | Inr templates \<Rightarrow>
          (case template_get (map fst templates) z of (templateinfo, z') \<Rightarrow> Inr z'))"

text \<open>
  The removal step of \<^verbatim>\<open>main\<close> in \<^verbatim>\<open>zbxgit2tpl.py\<close>: the files flagged
  \<^verbatim>\<open>GIT_STATUS_WT_NEW\<close>, joined to the export path with \<^verbatim>\<open>os.path.join\<close>, are handed to
  \<^verbatim>\<open>zabbix_remove_templates\<close> when there are any.
\<close>

definition path_join :: "string \<Rightarrow> string \<Rightarrow> string" where
  "path_join a b =
     (if take 1 b = ''/'' then b
      else if a = [] \<or> last a = CHR ''/'' then a @ b
      else a @ ''/'' @ b)"

definition templates_to_remove :: "string \<Rightarrow> (string \<times> int) list \<Rightarrow> string list" where
  "templates_to_remove export_path changes =
     map (\<lambda>(filepath, flags). path_join export_path filepath)
       (filter (\<lambda>(filepath, flags). flags = GIT_STATUS_WT_NEW) changes)"

definition remove_step :: "filesystem \<Rightarrow> string \<Rightarrow> (string \<times> int) list \<Rightarrow> zabbix \<Rightarrow> py_error + zabbix" where
  "remove_step fs export_path changes z =
     (if templates_to_remove export_path changes \<noteq> []
      then zabbix_remove_templates fs (templates_to_remove export_path changes) z
      else Inr z)"

text \<open>
  \<^verbatim>\<open>zabbix_import_templates\<close>. \<open>build_maps\<close> is the loop that fills \<^verbatim>\<open>filepaths\<close> and
  \<^verbatim>\<open>dependencies\<close> (\<open>add_template\<close> is its body for one template, \<open>link_names\<close> the
  set comprehension over the linked templates). \<^verbatim>\<open>ZAPI.confimport\<close> belongs to the remote
  system: it is a parameter that, from the file's templates and the templates the remote
  system holds, returns the exception it raises, if any, and the templates the remote
  system holds afterwards. Every call of it is entered in \<open>calls\<close>, raising or not. \<open>import_one\<close> is the body of the inner \<^verbatim>\<open>for template in templates:\<close>
  loop with its \<^verbatim>\<open>try\<close>: a \<^verbatim>\<open>KeyError\<close> is logged as a warning, any other exception as an
  error, and the loop goes on. The log is the list of these records, one per attempt. The
  order in which Python iterates over a wave (a set) is the parameter \<open>iter\<close>.
\<close>

type_synonym confimport =
  "template list \<Rightarrow> (name \<times> string) list \<Rightarrow> py_error option \<times> (name \<times> string) list"

definition link_names :: "(string \<times> string) list list \<Rightarrow> name set" where
  "link_names ds = set (concat (map (\<lambda>d. map snd (filter (\<lambda>(k, v). k = ''name'') d)) ds))"

definition add_template :: "string \<Rightarrow> template
    \<Rightarrow> (name \<times> string) list \<times> depdict \<Rightarrow> (name \<times> string) list \<times> depdict" where
  "add_template template_file template fd =
     (case fd of (filepaths, dependencies) \<Rightarrow>
        (AList.update (tpl_name template) template_file filepaths,
         (case tpl_templates template of
            Some ds \<Rightarrow> AList.update (tpl_name template) (link_names ds) dependencies
          | None \<Rightarrow> AList.update (tpl_name template) {} dependencies)))"

fun build_maps :: "filesystem \<Rightarrow> string list \<Rightarrow> (name \<times> string) list \<times> depdict
    \<Rightarrow> py_error + (name \<times> string) list \<times> depdict" where
  "build_maps fs [] fd = Inr fd"
| "build_maps fs (template_file # rest) fd =
     (case read_templates fs template_file of
        Inl e \<Rightarrow> Inl e
      | Inr template_json \<Rightarrow> build_maps fs rest (fold (add_template template_file) template_json fd))"

definition import_template :: "filesystem \<Rightarrow> confimport \<Rightarrow> string \<Rightarrow> zabbix \<Rightarrow> py_error option \<times> zabbix" where
  "import_template fs api filename z =
     (case read_templates fs filename of
        Inl e \<Rightarrow> (Some e, z)
      | Inr template_json \<Rightarrow>
          (case api template_json (remote_templates z) of
             (raised, remote') \<Rightarrow>
               (raised, z\<lparr>remote_templates := remote',
                          calls := calls z @ [ConfImport template_json]\<rparr>)))"

datatype outcome = Imported | Warned | Errored py_error

definition import_one :: "filesystem \<Rightarrow> confimport \<Rightarrow> (name \<times> string) list \<Rightarrow> name
    \<Rightarrow> (name \<times> outcome) list \<times> zabbix \<Rightarrow> (name \<times> outcome) list \<times> zabbix" where
  "import_one fs api filepaths template st =
     (case st of (log, z) \<Rightarrow>
        (case getitem filepaths template of
           Inl e \<Rightarrow> (log @ [(template, Warned)], z)
         | Inr filename \<Rightarrow>
             (case import_template fs api filename z of
                (None, z') \<Rightarrow> (log @ [(template, Imported)], z')
              | (Some e, z') \<Rightarrow>
                  (log @ [(template, if e = KeyError then Warned else Errored e)], z'))))"

definition import_waves :: "filesystem \<Rightarrow> confimport \<Rightarrow> (name \<times> string) list \<Rightarrow> name list list
    \<Rightarrow> (name \<times> outcome) list \<times> zabbix \<Rightarrow> (name \<times> outcome) list \<times> zabbix" where
  "import_waves fs api filepaths import_order st =
     fold (\<lambda>templates st. fold (import_one fs api filepaths) templates st) import_order st"

definition zabbix_import_templates :: "filesystem \<Rightarrow> confimport \<Rightarrow> (name set \<Rightarrow> name list)
    \<Rightarrow> string list \<Rightarrow> zabbix \<Rightarrow> (py_error + (name \<times> outcome) list \<times> zabbix) option" where
  "zabbix_import_templates fs api iter template_files z =
     (case build_maps fs template_files ([], []) of
        Inl e \<Rightarrow> Some (Inl e)
      | Inr (filepaths, dependencies) \<Rightarrow>
          (case resolve_dependencies dependencies of
             None \<Rightarrow> None
           | Some import_order \<Rightarrow>
               Some (Inr (import_waves fs api filepaths (map iter import_order) ([], z)))))"

text \<open>
  What one attempt amounts to, told without the loop. \<open>outcome_of\<close> is the record of an
  object attempted when the remote system holds \<open>remote\<close>: a warning when it has no entry
  in \<^verbatim>\<open>filepaths\<close>, an error when its file cannot be read, and otherwise what
  \<^verbatim>\<open>ZAPI.confimport\<close> does with its file. \<open>state_after\<close> is what the remote system holds
  after that attempt, and \<open>attempted_files\<close> lists the files of a sequence of objects that
  are handed to \<^verbatim>\<open>ZAPI.confimport\<close>. \<open>outcomes\<close> are the records of a sequence of objects,
  each attempted in the state its predecessors left.
\<close>

definition outcome_of :: "filesystem \<Rightarrow> confimport \<Rightarrow> (name \<times> string) list \<Rightarrow> name
    \<Rightarrow> (name \<times> string) list \<Rightarrow> outcome" where
  "outcome_of fs api filepaths t remote =
     (case map_of filepaths t of
        None \<Rightarrow> Warned
      | Some filename \<Rightarrow>
          (case fs filename of
             None \<Rightarrow> Errored FileNotFoundError
           | Some template_json \<Rightarrow>
               (case fst (api template_json remote) of
                  None \<Rightarrow> Imported
                | Some e \<Rightarrow> if e = KeyError then Warned else Errored e)))"

definition state_after :: "filesystem \<Rightarrow> confimport \<Rightarrow> (name \<times> string) list \<Rightarrow> name
    \<Rightarrow> (name \<times> string) list \<Rightarrow> (name \<times> string) list" where
  "state_after fs api filepaths t remote =
     (case map_of filepaths t of
        None \<Rightarrow> remote
      | Some filename \<Rightarrow>
          (case fs filename of
             None \<Rightarrow> remote
           | Some template_json \<Rightarrow> snd (api template_json remote)))"

definition attempted_files :: "filesystem \<Rightarrow> (name \<times> string) list \<Rightarrow> name list \<Rightarrow> template list list" where
  "attempted_files fs filepaths ts =
     concat (map (\<lambda>t. case map_of filepaths t of
                         None \<Rightarrow> []
                       | Some filename \<Rightarrow>
                           (case fs filename of None \<Rightarrow> [] | Some template_json \<Rightarrow> [template_json]))
                 ts)"

fun outcomes :: "filesystem \<Rightarrow> confimport \<Rightarrow> (name \<times> string) list \<Rightarrow> name list
    \<Rightarrow> (name \<times> string) list \<Rightarrow> outcome list" where
  "outcomes fs api filepaths [] remote = []"
| "outcomes fs api filepaths (t # ts) remote =
     outcome_of fs api filepaths t remote
       # outcomes fs api filepaths ts (state_after fs api filepaths t remote)"

text \<open>\<open>iter\<close> lists each wave: every member once.\<close>

definition enumerates :: "(name set \<Rightarrow> name list) \<Rightarrow> name set list \<Rightarrow> bool" where
  "enumerates iter import_order = (\<forall>w \<in> set import_order. set (iter w) = w \<and> distinct (iter w))"

subsection \<open>Removal\<close>

text \<open>
  C4. The claim: the removal operation issues the remote delete call for the resolved ids of
  the objects flagged working-tree-new. The function is named and documented as removing
  templates ("removes given 'templates' list from Zabbix") and logs "Deleting templates",
  but its delete call is commented out: whenever it returns, the remote templates are what
  they were and the only call issued is the lookup of the ids.
\<close>

theorem zabbix_remove_templates_no_delete:
  assumes "zabbix_remove_templates fs template_files z = Inr z'"
  shows "remote_templates z' = remote_templates z
         \<and> (\<exists>names'. calls z' = calls z @ [TemplateGet names'])"
  using assms
  by (auto simp: zabbix_remove_templates_def template_get_def split: sum.splits)

theorem zabbix_remove_templates_no_delete_witness:
  "remove_step [''/tmp/repository/OS/T.json'' \<mapsto> [\<lparr>tpl_name = ''T'', tpl_templates = None\<rparr>]]
       ''/tmp/repository'' [(''OS/T.json'', GIT_STATUS_WT_NEW)]
       \<lparr>remote_templates = [(''T'', ''10001'')], calls = []\<rparr>
     = Inr \<lparr>remote_templates = [(''T'', ''10001'')], calls = [TemplateGet [''T'']]\<rparr>
   \<and> remote_templates \<lparr>remote_templates = [(''T'', ''10001'')], calls = [TemplateGet [''T'']]\<rparr>
       = remote_templates \<lparr>remote_templates = [(''T'', ''10001'')], calls = []\<rparr>"
proof -
  let ?fs = "[''/tmp/repository/OS/T.json'' \<mapsto> [\<lparr>tpl_name = ''T'', tpl_templates = None\<rparr>]]"
  let ?z = "\<lparr>remote_templates = [(''T'', ''10001'')], calls = []\<rparr>"
  let ?z' = "\<lparr>remote_templates = [(''T'', ''10001'')], calls = [TemplateGet [''T'']]\<rparr>"
  have t: "templates_to_remove ''/tmp/repository'' [(''OS/T.json'', GIT_STATUS_WT_NEW)]
      = [''/tmp/repository/OS/T.json'']"
    by (simp add: templates_to_remove_def path_join_def)
  have r: "zabbix_remove_templates ?fs [''/tmp/repository/OS/T.json''] ?z = Inr ?z'"
    by (simp add: zabbix_remove_templates_def read_templates_def template_get_def)
  from t r have s: "remove_step ?fs ''/tmp/repository'' [(''OS/T.json'', GIT_STATUS_WT_NEW)] ?z = Inr ?z'"
    by (simp add: remove_step_def)
  from zabbix_remove_templates_no_delete[OF r] s show ?thesis by simp
qed

subsection \<open>Import wave by wave\<close>

lemma import_one_eq:
  "import_one fs api filepaths t (log, z) =
     (log @ [(t, outcome_of fs api filepaths t (remote_templates z))],
      z\<lparr>remote_templates := state_after fs api filepaths t (remote_templates z),
        calls := calls z @ map ConfImport (attempted_files fs filepaths [t])\<rparr>)"
proof (cases "map_of filepaths t")
  case None
  then show ?thesis
    by (simp add: import_one_def getitem_def outcome_of_def state_after_def attempted_files_def)
next
  case (Some filename)
  show ?thesis
  proof (cases "fs filename")
    case None
    with Some show ?thesis
      by (simp add: import_one_def getitem_def import_template_def read_templates_def
          outcome_of_def state_after_def attempted_files_def)
  next
    case present: (Some template_json)
    obtain raised remote' where a: "api template_json (remote_templates z) = (raised, remote')"
      by (cases "api template_json (remote_templates z)")
    with Some present show ?thesis
      by (cases raised)
        (simp_all add: import_one_def getitem_def import_template_def read_templates_def
          outcome_of_def state_after_def attempted_files_def)
  qed
qed

lemma attempted_files_Cons:
  "attempted_files fs filepaths (t # ts)
     = attempted_files fs filepaths [t] @ attempted_files fs filepaths ts"
  by (simp add: attempted_files_def)

lemma fold_import_one_eq:
  "fold (import_one fs api filepaths) ts (log, z) =
     (log @ zip ts (outcomes fs api filepaths ts (remote_templates z)),
      z\<lparr>remote_templates := fold (state_after fs api filepaths) ts (remote_templates z),
        calls := calls z @ map ConfImport (attempted_files fs filepaths ts)\<rparr>)"
proof (induction ts arbitrary: log z)
  case Nil
  then show ?case by (simp add: attempted_files_def)
next
  case (Cons t ts)
  let ?log1 = "log @ [(t, outcome_of fs api filepaths t (remote_templates z))]"
  let ?z1 = "z\<lparr>remote_templates := state_after fs api filepaths t (remote_templates z),
        calls := calls z @ map ConfImport (attempted_files fs filepaths [t])\<rparr>"
  have "fold (import_one fs api filepaths) (t # ts) (log, z)
      = fold (import_one fs api filepaths) ts (?log1, ?z1)"
    by (simp add: import_one_eq)
  also have "\<dots> = (?log1 @ zip ts (outcomes fs api filepaths ts (remote_templates ?z1)),
      ?z1\<lparr>remote_templates := fold (state_after fs api filepaths) ts (remote_templates ?z1),
        calls := calls ?z1 @ map ConfImport (attempted_files fs filepaths ts)\<rparr>)"
    by (rule Cons.IH)
  finally show ?case
    by (simp add: attempted_files_Cons[of fs filepaths t ts])
qed

lemma import_waves_eq:
  "import_waves fs api filepaths waves (log, z) =
     (log @ zip (concat waves) (outcomes fs api filepaths (concat waves) (remote_templates z)),
      z\<lparr>remote_templates := fold (state_after fs api filepaths) (concat waves) (remote_templates z),
        calls := calls z @ map ConfImport (attempted_files fs filepaths (concat waves))\<rparr>)"
proof -
  have "fold (\<lambda>templates st. fold (import_one fs api filepaths) templates st) waves st
      = fold (import_one fs api filepaths) (concat waves) st" for st
    by (induction waves arbitrary: st) simp_all
  then have "import_waves fs api filepaths waves (log, z)
      = fold (import_one fs api filepaths) (concat waves) (log, z)"
    by (simp add: import_waves_def)
  then show ?thesis by (simp add: fold_import_one_eq)
qed

lemma length_outcomes: "length (outcomes fs api filepaths ts remote) = length ts"
  by (induction ts arbitrary: remote) simp_all

lemma outcomes_nth:
  "i < length ts \<Longrightarrow>
     outcomes fs api filepaths ts remote ! i
       = outcome_of fs api filepaths (ts ! i)
           (fold (state_after fs api filepaths) (take i ts) remote)"
proof (induction ts arbitrary: i remote)
  case Nil
  then show ?case by simp
next
  case (Cons t ts)
  show ?case
  proof (cases i)
    case 0
    then show ?thesis by simp
  next
    case (Suc j)
    with Cons.prems have "j < length ts" by simp
    from Cons.IH[OF this] Suc show ?thesis by simp
  qed
qed

text \<open>
  C5. When the files are read and the resolver returns its waves, \<^verbatim>\<open>zabbix_import_templates\<close>
  returns, and every object of every wave is attempted, in the order of the waves, whatever
  happened to the objects before it: the log has exactly one record per object; the record
  of each object is the outcome of its own attempt (a warning when its file is absent from
  \<^verbatim>\<open>filepaths\<close>, a warning or an error when reading or importing its file raises, imported
  otherwise), made on the remote state that all earlier attempts, failed or not, left; the
  calls of \<^verbatim>\<open>ZAPI.confimport\<close> issued are exactly the files of the objects that have one,
  in order, none left out after a failure; and the remote system ends in the state these
  attempts leave.
\<close>

theorem zabbix_import_templates_attempts_all:
  assumes "build_maps fs template_files ([], []) = Inr (filepaths, dependencies)"
    and "resolve_dependencies dependencies = Some import_order"
    and "enumerates iter import_order"
  shows "\<exists>log z'. zabbix_import_templates fs api iter template_files z = Some (Inr (log, z'))
           \<and> map fst log = concat (map iter import_order)
           \<and> fst ` set log = \<Union> (set import_order)
           \<and> (\<forall>i < length log.
                 snd (log ! i)
                   = outcome_of fs api filepaths (concat (map iter import_order) ! i)
                       (fold (state_after fs api filepaths)
                          (take i (concat (map iter import_order))) (remote_templates z)))
           \<and> calls z'
               = calls z @ map ConfImport
                   (attempted_files fs filepaths (concat (map iter import_order)))
           \<and> remote_templates z'
               = fold (state_after fs api filepaths) (concat (map iter import_order))
                   (remote_templates z)"
proof -
  let ?ts = "concat (map iter import_order)"
  let ?log = "zip ?ts (outcomes fs api filepaths ?ts (remote_templates z))"
  let ?z' = "z\<lparr>remote_templates := fold (state_after fs api filepaths) ?ts (remote_templates z),
        calls := calls z @ map ConfImport (attempted_files fs filepaths ?ts)\<rparr>"
  have r: "import_waves fs api filepaths (map iter import_order) ([], z) = (?log, ?z')"
    by (simp add: import_waves_eq)
  from assms(1,2) r have a: "zabbix_import_templates fs api iter template_files z
      = Some (Inr (?log, ?z'))"
    by (simp add: zabbix_import_templates_def)
  have b: "map fst ?log = ?ts" by (simp add: length_outcomes)
  from assms(3) have "set ?ts = \<Union> (set import_order)"
    by (auto simp: enumerates_def)
  with b have c: "fst ` set ?log = \<Union> (set import_order)" by (metis set_map)
  have d: "\<forall>i < length ?log. snd (?log ! i)
      = outcome_of fs api filepaths (?ts ! i)
          (fold (state_after fs api filepaths) (take i ?ts) (remote_templates z))"
    by (simp add: length_outcomes outcomes_nth)
  have e: "calls ?z' = calls z @ map ConfImport (attempted_files fs filepaths ?ts)" by simp
  have f: "remote_templates ?z' = fold (state_after fs api filepaths) ?ts (remote_templates z)"
    by simp
  from a b c d e f show ?thesis by blast
qed

theorem zabbix_import_templates_attempts_all_witness:
  "build_maps
       [''/r/T1.json'' \<mapsto> [\<lparr>tpl_name = ''T1'', tpl_templates = Some [[(''name'', ''T2'')]]\<rparr>],
        ''/r/T3.json'' \<mapsto> [\<lparr>tpl_name = ''T3'', tpl_templates = None\<rparr>]]
       [''/r/T1.json'', ''/r/T3.json''] ([], [])
     = Inr ([(''T1'', ''/r/T1.json''), (''T3'', ''/r/T3.json'')], [(''T1'', {''T2''}), (''T3'', {})])
   \<and> resolve_dependencies [(''T1'', {''T2''}), (''T3'', {})] = Some [{''T2'', ''T3''}, {''T1''}]
   \<and> enumerates sorted_list_of_set [{''T2'', ''T3''}, {''T1''}]
   \<and> zabbix_import_templates
         [''/r/T1.json'' \<mapsto> [\<lparr>tpl_name = ''T1'', tpl_templates = Some [[(''name'', ''T2'')]]\<rparr>],
          ''/r/T3.json'' \<mapsto> [\<lparr>tpl_name = ''T3'', tpl_templates = None\<rparr>]]
         (\<lambda>template_json remote.
            if ''T3'' \<in> set (map tpl_name template_json) then (Some (OtherError ''rejected''), remote)
            else (None, remote @ map (\<lambda>t. (tpl_name t, ''10001'')) template_json))
         sorted_list_of_set [''/r/T1.json'', ''/r/T3.json'']
         \<lparr>remote_templates = [], calls = []\<rparr>
       = Some (Inr ([(''T2'', Warned), (''T3'', Errored (OtherError ''rejected'')), (''T1'', Imported)],
                    \<lparr>remote_templates = [(''T1'', ''10001'')],
                      calls = [ConfImport [\<lparr>tpl_name = ''T3'', tpl_templates = None\<rparr>],
                               ConfImport [\<lparr>tpl_name = ''T1'',
                                            tpl_templates = Some [[(''name'', ''T2'')]]\<rparr>]]\<rparr>))
   \<and> map fst [(''T2'', Warned), (''T3'', Errored (OtherError ''rejected'')), (''T1'', Imported)]
       = concat (map sorted_list_of_set [{''T2'', ''T3''}, {''T1''}])
   \<and> [ConfImport [\<lparr>tpl_name = ''T3'', tpl_templates = None\<rparr>],
       ConfImport [\<lparr>tpl_name = ''T1'', tpl_templates = Some [[(''name'', ''T2'')]]\<rparr>]]
       = map ConfImport
           (attempted_files
              [''/r/T1.json'' \<mapsto> [\<lparr>tpl_name = ''T1'', tpl_templates = Some [[(''name'', ''T2'')]]\<rparr>],
               ''/r/T3.json'' \<mapsto> [\<lparr>tpl_name = ''T3'', tpl_templates = None\<rparr>]]
              [(''T1'', ''/r/T1.json''), (''T3'', ''/r/T3.json'')]
              (concat (map sorted_list_of_set [{''T2'', ''T3''}, {''T1''}])))"
proof -
  let ?fs = "[''/r/T1.json'' \<mapsto> [\<lparr>tpl_name = ''T1'', tpl_templates = Some [[(''name'', ''T2'')]]\<rparr>],
        ''/r/T3.json'' \<mapsto> [\<lparr>tpl_name = ''T3'', tpl_templates = None\<rparr>]]"
  let ?api = "\<lambda>template_json remote.
            if ''T3'' \<in> set (map tpl_name template_json) then (Some (OtherError ''rejected''), remote)
            else (None, remote @ map (\<lambda>t. (tpl_name t, ''10001'')) template_json)"
  let ?z = "\<lparr>remote_templates = [], calls = []\<rparr>"
  let ?fp = "[(''T1'', ''/r/T1.json''), (''T3'', ''/r/T3.json'')]"
  let ?LOG = "[(''T2'', Warned), (''T3'', Errored (OtherError ''rejected'')), (''T1'', Imported)]"
  let ?Z = "\<lparr>remote_templates = [(''T1'', ''10001'')],
             calls = [ConfImport [\<lparr>tpl_name = ''T3'', tpl_templates = None\<rparr>],
                      ConfImport [\<lparr>tpl_name = ''T1'', tpl_templates = Some [[(''name'', ''T2'')]]\<rparr>]]\<rparr>"
  have b: "build_maps ?fs [''/r/T1.json'', ''/r/T3.json''] ([], [])
      = Inr (?fp, [(''T1'', {''T2''}), (''T3'', {})])"
    by (simp add: read_templates_def add_template_def link_names_def)
  have "resolve_loop [(''T1'', {''T2''}), (''T3'', {})] []
      = resolve_loop [(''T1'', {})] [{''T2'', ''T3''}]"
    by (rule resolve_loop_round[where r = "[]", simplified]) (auto simp: wave_def cleaned_def)
  also have "\<dots> = resolve_loop [] [{''T2'', ''T3''}, {''T1''}]"
    by (rule resolve_loop_round[where r = "[{''T2'', ''T3''}]", simplified])
      (auto simp: wave_def cleaned_def)
  finally have r: "resolve_dependencies [(''T1'', {''T2''}), (''T3'', {})]
      = Some [{''T2'', ''T3''}, {''T1''}]"
    by (simp add: resolve_dependencies_def resolve_loop_done)
  have e: "enumerates sorted_list_of_set [{''T2'', ''T3''}, {''T1''}]"
    by (simp add: enumerates_def)
  have s1: "sorted_list_of_set {''T2'', ''T3''} = [''T2'', ''T3'']" by code_simp
  have s2: "sorted_list_of_set {''T1''} = [''T1'']" by simp
  have w: "import_waves ?fs ?api ?fp [[''T2'', ''T3''], [''T1'']] ([], ?z) = (?LOG, ?Z)"
    by (simp add: import_waves_def import_one_def getitem_def import_template_def read_templates_def)
  from b r w s1 s2 have ev: "zabbix_import_templates ?fs ?api sorted_list_of_set
        [''/r/T1.json'', ''/r/T3.json''] ?z = Some (Inr (?LOG, ?Z))"
    by (simp add: zabbix_import_templates_def)
  from zabbix_import_templates_attempts_all[OF b r e, of ?api ?z]
  obtain log z' where l: "zabbix_import_templates ?fs ?api sorted_list_of_set
        [''/r/T1.json'', ''/r/T3.json''] ?z = Some (Inr (log, z'))"
    and n: "map fst log = concat (map sorted_list_of_set [{''T2'', ''T3''}, {''T1''}])"
    and c: "calls z' = calls ?z @ map ConfImport
        (attempted_files ?fs ?fp (concat (map sorted_list_of_set [{''T2'', ''T3''}, {''T1''}])))"
    by blast
  from l ev have eq: "log = ?LOG" "z' = ?Z" by simp_all
  from n eq(1) have n': "map fst ?LOG = concat (map sorted_list_of_set [{''T2'', ''T3''}, {''T1''}])"
    by simp
  from c eq(2) have c': "[ConfImport [\<lparr>tpl_name = ''T3'', tpl_templates = None\<rparr>],
       ConfImport [\<lparr>tpl_name = ''T1'', tpl_templates = Some [[(''name'', ''T2'')]]\<rparr>]]
       = map ConfImport
           (attempted_files ?fs ?fp (concat (map sorted_list_of_set [{''T2'', ''T3''}, {''T1''}])))"
    by simp
  from b r e ev n' c' show ?thesis by (intro conjI)
qed

section \<open>The resolver and the caller's objects\<close>

text \<open>
  Whether \<^verbatim>\<open>resolve_dependencies\<close> changes its argument depends on which objects it
  writes to, so here the resolver runs on an explicit store. An address is an index into the
  heap; the objects are Python sets of names, dicts from names to addresses, and lists of
  addresses. Allocation appends an object; nothing is ever freed.
\<close>

datatype pyobj = PySet "name set" | PyDict "(name \<times> nat) list" | PyList "nat list"

type_synonym heap = "pyobj list"

definition alloc :: "heap \<Rightarrow> pyobj \<Rightarrow> heap \<times> nat" where
  "alloc h obj = (h @ [obj], length h)"

text \<open>
  \<^verbatim>\<open>set(x)\<close>: a new set of the elements of a set or of the keys of a dict (the callers pass
  \<^verbatim>\<open>{}\<close>, an empty dict, for "no dependencies"); of a list only the empty one has hashable
  elements here. \<open>get_set\<close> reads an object that is used as a set (\<^verbatim>\<open>for i in v\<close>,
  \<^verbatim>\<open>not v\<close>, \<^verbatim>\<open>v - t\<close>).
\<close>

definition py_set :: "heap \<Rightarrow> nat \<Rightarrow> py_error + name set" where
  "py_set h a =
     (if a < length h then
        (case h ! a of
           PySet s \<Rightarrow> Inr s
         | PyDict kvs \<Rightarrow> Inr (set (map fst kvs))
         | PyList xs \<Rightarrow> (if xs = [] then Inr {} else Inl TypeError))
      else Inl TypeError)"

definition get_set :: "heap \<Rightarrow> nat \<Rightarrow> py_error + name set" where
  "get_set h a =
     (if a < length h then (case h ! a of PySet s \<Rightarrow> Inr s | _ \<Rightarrow> Inl TypeError)
      else Inl TypeError)"

text \<open>
  \<^verbatim>\<open>dict((k, set(deplist[k])) for k in deplist)\<close>: one new set per entry (\<open>copy_entries\<close>),
  then the new dict. \<open>read_dict\<close> reads the working dict \<^verbatim>\<open>d\<close> with its sets;
  \<open>store_entries\<close> allocates the sets \<^verbatim>\<open>v - t\<close> of the next working dict;
  \<open>list_append\<close> is \<^verbatim>\<open>r.append(t)\<close>, an update in place.
\<close>

fun copy_entries :: "heap \<Rightarrow> (name \<times> nat) list \<Rightarrow> py_error + heap \<times> (name \<times> nat) list" where
  "copy_entries h [] = Inr (h, [])"
| "copy_entries h ((k, a) # kvs) =
     (case py_set h a of
        Inl e \<Rightarrow> Inl e
      | Inr s \<Rightarrow>
          (case copy_entries (fst (alloc h (PySet s))) kvs of
             Inl e \<Rightarrow> Inl e
           | Inr (h', es) \<Rightarrow> Inr (h', (k, snd (alloc h (PySet s))) # es)))"

fun read_entries :: "heap \<Rightarrow> (name \<times> nat) list \<Rightarrow> py_error + depdict" where
  "read_entries h [] = Inr []"
| "read_entries h ((k, a) # kvs) =
     (case get_set h a of
        Inl e \<Rightarrow> Inl e
      | Inr s \<Rightarrow> (case read_entries h kvs of Inl e \<Rightarrow> Inl e | Inr es \<Rightarrow> Inr ((k, s) # es)))"

definition read_dict :: "heap \<Rightarrow> nat \<Rightarrow> py_error + depdict" where
  "read_dict h d =
     (if d < length h then (case h ! d of PyDict kvs \<Rightarrow> read_entries h kvs | _ \<Rightarrow> Inl TypeError)
      else Inl TypeError)"

fun store_entries :: "heap \<Rightarrow> depdict \<Rightarrow> heap \<times> (name \<times> nat) list" where
  "store_entries h [] = (h, [])"
| "store_entries h ((k, s) # es) =
     (case store_entries (fst (alloc h (PySet s))) es of
        (h', kvs) \<Rightarrow> (h', (k, snd (alloc h (PySet s))) # kvs))"

definition list_append :: "heap \<Rightarrow> nat \<Rightarrow> nat \<Rightarrow> py_error + heap" where
  "list_append h r x =
     (if r < length h then
        (case h ! r of PyList xs \<Rightarrow> Inr (h[r := PyList (xs @ [x])]) | _ \<Rightarrow> Inl TypeError)
      else Inl TypeError)"

text \<open>
  One round of the loop: \<^verbatim>\<open>t\<close> is allocated with the names that are not keys,
  \<^verbatim>\<open>t.update(...)\<close> writes to it in place, \<^verbatim>\<open>r.append(t)\<close> writes to \<^verbatim>\<open>r\<close> in place, and
  \<^verbatim>\<open>d\<close> is bound to a new dict of new sets.
\<close>

definition round_h :: "heap \<Rightarrow> depdict \<Rightarrow> nat \<Rightarrow> py_error + heap \<times> nat" where
  "round_h h items r =
     (case alloc h (PySet (\<Union> (set (map snd items)) - set (map fst items))) of
        (h1, t) \<Rightarrow>
          (let tv = (\<Union> (set (map snd items)) - set (map fst items))
                      \<union> set (map fst (filter (\<lambda>(k, v). v = {}) items));
               h2 = h1[t := PySet tv]
           in (case list_append h2 r t of
                 Inl e \<Rightarrow> Inl e
               | Inr h3 \<Rightarrow>
                   (case store_entries h3 (map (\<lambda>(k, v). (k, v - tv)) (filter (\<lambda>(k, v). v \<noteq> {}) items)) of
                      (h4, kvs) \<Rightarrow> Inr (alloc h4 (PyDict kvs))))))"

partial_function (option) resolve_loop_h :: "heap \<Rightarrow> nat \<Rightarrow> nat \<Rightarrow> (py_error + heap \<times> nat) option" where
  "resolve_loop_h h d r =
     (case read_dict h d of
        Inl e \<Rightarrow> Some (Inl e)
      | Inr items \<Rightarrow>
          if items = [] then Some (Inr (h, r))
          else (case round_h h items r of
                  Inl e \<Rightarrow> Some (Inl e)
                | Inr (h', d') \<Rightarrow> resolve_loop_h h' d' r))"

declare resolve_loop_h.simps [code]

definition resolve_dependencies_h :: "heap \<Rightarrow> nat \<Rightarrow> (py_error + heap \<times> nat) option" where
  "resolve_dependencies_h h deplist =
     (if deplist < length h then
        (case h ! deplist of
           PyDict kvs \<Rightarrow>
             (case copy_entries h kvs of
                Inl e \<Rightarrow> Some (Inl e)
              | Inr (h1, es) \<Rightarrow>
                  (case alloc h1 (PyDict es) of
                     (h2, d) \<Rightarrow> (case alloc h2 (PyList []) of (h3, r) \<Rightarrow> resolve_loop_h h3 d r)))
         | _ \<Rightarrow> Some (Inl TypeError))
      else Some (Inl TypeError))"

text \<open>
  Reading results back: the list of waves at an address, and the caller's dict as the
  mapping that \<^verbatim>\<open>set(deplist[k])\<close> sees.
\<close>

fun read_sets :: "heap \<Rightarrow> nat list \<Rightarrow> py_error + name set list" where
  "read_sets h [] = Inr []"
| "read_sets h (a # as) =
     (case get_set h a of
        Inl e \<Rightarrow> Inl e
      | Inr s \<Rightarrow> (case read_sets h as of Inl e \<Rightarrow> Inl e | Inr ss \<Rightarrow> Inr (s # ss)))"

definition read_waves :: "heap \<Rightarrow> nat \<Rightarrow> py_error + name set list" where
  "read_waves h r =
     (if r < length h then (case h ! r of PyList as \<Rightarrow> read_sets h as | _ \<Rightarrow> Inl TypeError)
      else Inl TypeError)"

fun view_entries :: "heap \<Rightarrow> (name \<times> nat) list \<Rightarrow> py_error + depdict" where
  "view_entries h [] = Inr []"
| "view_entries h ((k, a) # kvs) =
     (case py_set h a of
        Inl e \<Rightarrow> Inl e
      | Inr s \<Rightarrow> (case view_entries h kvs of Inl e \<Rightarrow> Inl e | Inr es \<Rightarrow> Inr ((k, s) # es)))"

definition dict_view :: "heap \<Rightarrow> nat \<Rightarrow> py_error + depdict" where
  "dict_view h d =
     (if d < length h then (case h ! d of PyDict kvs \<Rightarrow> view_entries h kvs | _ \<Rightarrow> Inl TypeError)
      else Inl TypeError)"

text \<open>
  \<open>entry_at\<close>: an entry of a dict in the heap holds the given set. \<open>heap_inv\<close>: the working
  dict and the list of waves in the heap are the variables \<open>d\<close> and \<open>r\<close> of the resolver
  without a store.
\<close>

definition entry_at :: "heap \<Rightarrow> name \<times> nat \<Rightarrow> name \<times> name set \<Rightarrow> bool" where
  "entry_at h ka ks = (fst ka = fst ks \<and> snd ka < length h \<and> h ! snd ka = PySet (snd ks))"

definition heap_inv :: "heap \<Rightarrow> nat \<Rightarrow> nat \<Rightarrow> depdict \<Rightarrow> name set list \<Rightarrow> bool" where
  "heap_inv h d r items ws = (read_dict h d = Inr items \<and> read_waves h r = Inr ws)"

subsection \<open>Only new objects are written\<close>

lemma copy_entries_frame:
  "copy_entries h kvs = Inr (h', es) \<Longrightarrow> n \<le> length h \<Longrightarrow> take n h' = take n h \<and> length h \<le> length h'"
proof (induction h kvs arbitrary: h' es rule: copy_entries.induct)
  case (1 h)
  then show ?case by simp
next
  case (2 h k a kvs)
  from "2.prems"(1) obtain s h1 es1 where s: "py_set h a = Inr s"
    and c: "copy_entries (fst (alloc h (PySet s))) kvs = Inr (h1, es1)" and h1: "h' = h1"
    by (auto split: sum.splits)
  from "2.prems"(2) have "n \<le> length (fst (alloc h (PySet s)))" by (simp add: alloc_def)
  from "2.IH"[OF s c this] h1 "2.prems"(2) show ?case by (simp add: alloc_def)
qed

lemma store_entries_frame:
  "store_entries h es = (h', kvs) \<Longrightarrow> n \<le> length h \<Longrightarrow> take n h' = take n h \<and> length h \<le> length h'"
proof (induction h es arbitrary: h' kvs rule: store_entries.induct)
  case (1 h)
  then show ?case by simp
next
  case (2 h k s es)
  from "2.prems"(1) obtain h1 kvs1 where c: "store_entries (fst (alloc h (PySet s))) es = (h1, kvs1)"
    and h1: "h' = h1" by (auto split: prod.splits)
  from "2.prems"(2) have "n \<le> length (fst (alloc h (PySet s)))" by (simp add: alloc_def)
  from "2.IH"[OF c this] h1 "2.prems"(2) show ?case by (simp add: alloc_def)
qed

lemma round_h_frame:
  assumes "round_h h items r = Inr (h', d')" and "n \<le> length h" and "n \<le> r"
  shows "take n h' = take n h \<and> length h \<le> length h'"
proof -
  let ?t0 = "\<Union> (set (map snd items)) - set (map fst items)"
  let ?tv = "?t0 \<union> set (map fst (filter (\<lambda>(k, v). v = {}) items))"
  let ?h2 = "(h @ [PySet ?t0])[length h := PySet ?tv]"
  from assms(1) obtain h3 h4 kvs where a: "list_append ?h2 r (length h) = Inr h3"
    and s: "store_entries h3 (map (\<lambda>(k, v). (k, v - ?tv)) (filter (\<lambda>(k, v). v \<noteq> {}) items)) = (h4, kvs)"
    and e: "h' = h4 @ [PyDict kvs]"
    by (auto simp: round_h_def alloc_def Let_def split: sum.splits prod.splits)
  have f2: "take n ?h2 = take n h" using assms(2) by simp
  from a obtain xs where h3: "h3 = ?h2[r := PyList (xs @ [length h])]"
    by (auto simp: list_append_def split: if_splits pyobj.splits)
  with f2 assms(3) have f3: "take n h3 = take n h" by simp
  from h3 have l3: "length h3 = Suc (length h)" by simp
  with assms(2) have "n \<le> length h3" by simp
  from store_entries_frame[OF s this] f3 l3 have "take n h4 = take n h" "length h \<le> length h4"
    by simp_all
  with e assms(2) show ?thesis by simp
qed

lemma resolve_loop_h_frame:
  assumes "resolve_loop_h h d r = Some y"
  shows "\<forall>n h' res. y = Inr (h', res) \<longrightarrow> n \<le> length h \<longrightarrow> n \<le> r \<longrightarrow> take n h' = take n h"
proof (rule resolve_loop_h.raw_induct
    [where P = "\<lambda>h d r y. \<forall>n h' res. y = Inr (h', res) \<longrightarrow> n \<le> length h \<longrightarrow> n \<le> r
        \<longrightarrow> take n h' = take n h", OF _ assms])
  fix f :: "heap \<Rightarrow> nat \<Rightarrow> nat \<Rightarrow> (py_error + heap \<times> nat) option" and h d r y
  assume IH: "\<And>h d r y. f h d r = Some y \<Longrightarrow>
      \<forall>n h' res. y = Inr (h', res) \<longrightarrow> n \<le> length h \<longrightarrow> n \<le> r \<longrightarrow> take n h' = take n h"
    and eq: "(case read_dict h d of Inl e \<Rightarrow> Some (Inl e)
        | Inr items \<Rightarrow> if items = [] then Some (Inr (h, r))
            else (case round_h h items r of Inl e \<Rightarrow> Some (Inl e) | Inr (h', d') \<Rightarrow> f h' d' r)) = Some y"
  show "\<forall>n h' res. y = Inr (h', res) \<longrightarrow> n \<le> length h \<longrightarrow> n \<le> r \<longrightarrow> take n h' = take n h"
  proof (intro allI impI)
    fix n h' res
    assume y: "y = Inr (h', res)" and n: "n \<le> length h" and nr: "n \<le> r"
    from eq y obtain items where items: "read_dict h d = Inr items"
      by (cases "read_dict h d") auto
    show "take n h' = take n h"
    proof (cases "items = []")
      case True
      with eq items y show ?thesis by simp
    next
      case False
      with eq items y obtain h1 d1 where rd: "round_h h items r = Inr (h1, d1)"
        and rec: "f h1 d1 r = Some y"
        by (cases "round_h h items r") auto
      from round_h_frame[OF rd n nr] have f1: "take n h1 = take n h" "length h \<le> length h1"
        by simp_all
      with n have "n \<le> length h1" by simp
      with IH[OF rec] y nr have "take n h' = take n h1" by blast
      with f1 show ?thesis by simp
    qed
  qed
qed

lemma resolve_dependencies_h_frame:
  assumes "resolve_dependencies_h h deplist = Some (Inr (h', r))"
  shows "take (length h) h' = h"
proof -
  from assms obtain kvs h1 es where dl: "deplist < length h" "h ! deplist = PyDict kvs"
    and c: "copy_entries h kvs = Inr (h1, es)"
    and l: "resolve_loop_h (h1 @ [PyDict es] @ [PyList []]) (length h1) (Suc (length h1))
        = Some (Inr (h', r))"
    by (auto simp: resolve_dependencies_h_def alloc_def split: if_splits pyobj.splits sum.splits)
  from copy_entries_frame[OF c, of "length h"] have f1: "take (length h) h1 = h"
    "length h \<le> length h1" by simp_all
  from resolve_loop_h_frame[OF l] f1(2)
  have "take (length h) h' = take (length h) (h1 @ [PyDict es] @ [PyList []])" by simp
  with f1 show ?thesis by simp
qed

subsection \<open>The resolver on the store computes the waves of the resolver without a store\<close>

lemma get_set_iff: "get_set h a = Inr s \<longleftrightarrow> a < length h \<and> h ! a = PySet s"
  by (auto simp: get_set_def split: pyobj.splits)

lemma get_set_Inl: "get_set h a = Inl e \<Longrightarrow> a < length h \<Longrightarrow> h ! a \<noteq> PySet s"
  by (auto simp: get_set_def split: pyobj.splits)

lemma read_sets_iff:
  "read_sets h as = Inr ws \<longleftrightarrow> list_all2 (\<lambda>a s. a < length h \<and> h ! a = PySet s) as ws"
proof (induction as arbitrary: ws)
  case Nil
  then show ?case by auto
next
  case (Cons a as)
  show ?case
  proof (cases ws)
    case Nil
    then show ?thesis by (auto split: sum.splits)
  next
    case (Cons w ws')
    with Cons.IH[of ws'] show ?thesis
      by (auto simp: get_set_iff split: sum.splits dest: get_set_Inl)
  qed
qed

lemma read_entries_iff:
  "read_entries h kvs = Inr items \<longleftrightarrow> list_all2 (entry_at h) kvs items"
proof (induction kvs arbitrary: items)
  case Nil
  then show ?case by auto
next
  case (Cons ka kvs)
  obtain k a where ka: "ka = (k, a)" by (cases ka)
  show ?case
  proof (cases items)
    case Nil
    then show ?thesis by (auto simp: ka split: sum.splits)
  next
    case (Cons it items')
    with Cons.IH[of items'] show ?thesis
      by (cases it) (auto simp: ka get_set_iff entry_at_def split: sum.splits dest: get_set_Inl)
  qed
qed

lemma entry_at_extend: "entry_at h ka ks \<Longrightarrow> entry_at (h @ new) ka ks"
  by (auto simp: entry_at_def nth_append)

lemma store_entries_spec:
  "store_entries h es = (h', kvs) \<Longrightarrow>
     (\<exists>new. h' = h @ new) \<and> list_all2 (entry_at h') kvs es"
proof (induction h es arbitrary: h' kvs rule: store_entries.induct)
  case (1 h)
  then show ?case by simp
next
  case (2 h k s es)
  from "2.prems" obtain kvs1 where c: "store_entries (h @ [PySet s]) es = (h', kvs1)"
    and kv: "kvs = (k, length h) # kvs1"
    by (auto simp: alloc_def split: prod.splits)
  from "2.IH"[of h' kvs1] c obtain new where m: "h' = (h @ [PySet s]) @ new"
    and l: "list_all2 (entry_at h') kvs1 es" by (auto simp: alloc_def)
  from m have "entry_at h' (k, length h) (k, s)" by (simp add: entry_at_def nth_append)
  with l kv m show ?case by auto
qed

lemma view_entries_extend:
  assumes "\<forall>(k, a) \<in> set kvs. a < length h"
  shows "view_entries (h @ new) kvs = view_entries h kvs"
  using assms
proof (induction kvs)
  case Nil
  then show ?case by simp
next
  case (Cons p kvs)
  obtain k a where p: "p = (k, a)" by (cases p)
  with Cons.prems have a: "a < length h" by simp
  then have "py_set (h @ new) a = py_set h a" by (simp add: py_set_def nth_append)
  with Cons p show ?case by (simp split: sum.splits)
qed

lemma copy_entries_spec:
  "copy_entries h kvs = Inr (h', es) \<Longrightarrow> \<forall>(k, a) \<in> set kvs. a < length h \<Longrightarrow>
     (\<exists>new. h' = h @ new) \<and>
     (\<exists>items. view_entries h kvs = Inr items \<and> list_all2 (entry_at h') es items)"
proof (induction h kvs arbitrary: h' es rule: copy_entries.induct)
  case (1 h)
  then show ?case by simp
next
  case (2 h k a kvs)
  from "2.prems"(1) obtain s es1 where s: "py_set h a = Inr s"
    and c: "copy_entries (h @ [PySet s]) kvs = Inr (h', es1)" and e: "es = (k, length h) # es1"
    by (auto simp: alloc_def split: sum.splits)
  from "2.prems"(2) have wf: "\<forall>(k, a) \<in> set kvs. a < length h" by simp
  then have wf': "\<forall>(k, a) \<in> set kvs. a < length (fst (alloc h (PySet s)))"
    by (auto simp: alloc_def)
  from "2.IH"[OF s _ wf', of h' es1] c obtain new items where m: "h' = (h @ [PySet s]) @ new"
    and v: "view_entries (h @ [PySet s]) kvs = Inr items" and l: "list_all2 (entry_at h') es1 items"
    by (auto simp: alloc_def)
  from v view_entries_extend[OF wf, of "[PySet s]"] have v': "view_entries h kvs = Inr items"
    by simp
  have m1: "entry_at h' (k, length h) (k, s)" using m by (simp add: entry_at_def nth_append)
  from s v' l m m1 e show ?case by auto
qed


lemma round_h_inv:
  assumes rd: "round_h h items r = Inr (h1, d1)" and inv: "heap_inv h d r items ws"
  shows "heap_inv h1 d1 r (cleaned items (wave items)) (ws @ [wave items])"
proof -
  let ?t0 = "\<Union> (set (map snd items)) - set (map fst items)"
  let ?h2 = "(h @ [PySet ?t0])[length h := PySet (wave items)]"
  from rd obtain h3 h4 kvs where a: "list_append ?h2 r (length h) = Inr h3"
    and s: "store_entries h3 (cleaned items (wave items)) = (h4, kvs)"
    and e: "h1 = h4 @ [PyDict kvs]" and d1: "d1 = length h4"
    unfolding round_h_def alloc_def Let_def cleaned_def wave_def
    by (auto split: sum.splits prod.splits)
  have h2: "?h2 = h @ [PySet (wave items)]" by simp
  from inv obtain as where r: "r < length h" "h ! r = PyList as" and as: "read_sets h as = Inr ws"
    by (auto simp: heap_inv_def read_waves_def split: if_splits pyobj.splits)
  from a r h2 have h3: "h3 = (h @ [PySet (wave items)])[r := PyList (as @ [length h])]"
    by (auto simp: list_append_def nth_append split: if_splits pyobj.splits)
  from store_entries_spec[OF s] obtain new where h4: "h4 = h3 @ new"
    and l: "list_all2 (entry_at h4) kvs (cleaned items (wave items))" by blast
  from l have "list_all2 (entry_at h1) kvs (cleaned items (wave items))"
    unfolding e by (rule list_all2_mono) (rule entry_at_extend)
  then have "read_entries h1 kvs = Inr (cleaned items (wave items))"
    by (simp add: read_entries_iff)
  with e d1 have A: "read_dict h1 d1 = Inr (cleaned items (wave items))"
    by (simp add: read_dict_def)
  from h3 have l3: "length h3 = Suc (length h)" by simp
  have r1: "h1 ! r = PyList (as @ [length h])" "r < length h1"
    using r(1) h3 h4 e l3 by (simp_all add: nth_append)
  from as have old: "list_all2 (\<lambda>a s. a < length h \<and> h ! a = PySet s) as ws"
    by (simp add: read_sets_iff)
  have keep: "a < length h1 \<and> h1 ! a = PySet s" if "a < length h" "h ! a = PySet s" for a s
  proof -
    from that r(2) have "a \<noteq> r" by auto
    with that h3 have "h3 ! a = PySet s" by (simp add: nth_append)
    with that(1) l3 h4 e show ?thesis by (simp add: nth_append)
  qed
  from old have o1: "list_all2 (\<lambda>a s. a < length h1 \<and> h1 ! a = PySet s) as ws"
    by (rule list_all2_mono) (use keep in blast)
  have "length h \<noteq> r" using r(1) by simp
  then have "h3 ! length h = PySet (wave items)" using h3 by (simp add: nth_append)
  then have t1: "length h < length h1 \<and> h1 ! length h = PySet (wave items)"
    using l3 h4 e by (simp add: nth_append)
  from o1 t1 have "list_all2 (\<lambda>a s. a < length h1 \<and> h1 ! a = PySet s)
      (as @ [length h]) (ws @ [wave items])"
    by (intro list_all2_appendI) simp_all
  then have "read_sets h1 (as @ [length h]) = Inr (ws @ [wave items])"
    by (simp add: read_sets_iff)
  with r1 have B: "read_waves h1 r = Inr (ws @ [wave items])" by (simp add: read_waves_def)
  from A B show ?thesis by (simp add: heap_inv_def)
qed

lemma resolve_loop_h_refines:
  assumes "resolve_loop_h h d r = Some y"
  shows "\<forall>items ws h' res. y = Inr (h', res) \<longrightarrow> heap_inv h d r items ws \<longrightarrow>
           res = r \<and> (\<exists>waves. read_waves h' r = Inr waves \<and> resolve_loop items ws = Some waves)"
proof (rule resolve_loop_h.raw_induct
    [where P = "\<lambda>h d r y. \<forall>items ws h' res. y = Inr (h', res) \<longrightarrow> heap_inv h d r items ws \<longrightarrow>
           res = r \<and> (\<exists>waves. read_waves h' r = Inr waves \<and> resolve_loop items ws = Some waves)",
     OF _ assms])
  fix f :: "heap \<Rightarrow> nat \<Rightarrow> nat \<Rightarrow> (py_error + heap \<times> nat) option" and h d r y
  assume IH: "\<And>h d r y. f h d r = Some y \<Longrightarrow>
      \<forall>items ws h' res. y = Inr (h', res) \<longrightarrow> heap_inv h d r items ws \<longrightarrow>
           res = r \<and> (\<exists>waves. read_waves h' r = Inr waves \<and> resolve_loop items ws = Some waves)"
    and eq: "(case read_dict h d of Inl e \<Rightarrow> Some (Inl e)
        | Inr items \<Rightarrow> if items = [] then Some (Inr (h, r))
            else (case round_h h items r of Inl e \<Rightarrow> Some (Inl e) | Inr (h', d') \<Rightarrow> f h' d' r)) = Some y"
  show "\<forall>items ws h' res. y = Inr (h', res) \<longrightarrow> heap_inv h d r items ws \<longrightarrow>
           res = r \<and> (\<exists>waves. read_waves h' r = Inr waves \<and> resolve_loop items ws = Some waves)"
  proof (intro allI impI)
    fix items ws h' res
    assume y: "y = Inr (h', res)" and inv: "heap_inv h d r items ws"
    from inv have items: "read_dict h d = Inr items" and ws: "read_waves h r = Inr ws"
      by (simp_all add: heap_inv_def)
    show "res = r \<and> (\<exists>waves. read_waves h' r = Inr waves \<and> resolve_loop items ws = Some waves)"
    proof (cases "items = []")
      case True
      with eq items y have "h' = h" "res = r" by simp_all
      with ws True show ?thesis by (simp add: resolve_loop_done)
    next
      case False
      with eq items y obtain h1 d1 where rd: "round_h h items r = Inr (h1, d1)"
        and rec: "f h1 d1 r = Some y"
        by (cases "round_h h items r") auto
      from IH[OF rec] y round_h_inv[OF rd inv] obtain waves where
        w: "res = r" "read_waves h' r = Inr waves"
        "resolve_loop (cleaned items (wave items)) (ws @ [wave items]) = Some waves" by blast
      from resolve_loop_round[OF False refl refl, of ws] w(3)
      have "resolve_loop items ws = Some waves" by simp
      with w show ?thesis by blast
    qed
  qed
qed

lemma resolve_dependencies_h_refines:
  assumes ret: "resolve_dependencies_h h deplist = Some (Inr (h', res))"
    and closed: "\<forall>kvs. h ! deplist = PyDict kvs \<longrightarrow> (\<forall>(k, a) \<in> set kvs. a < length h)"
  shows "\<exists>items waves. dict_view h deplist = Inr items \<and> read_waves h' res = Inr waves
           \<and> resolve_dependencies items = Some waves"
proof -
  from ret obtain kvs h1 es where dl: "deplist < length h" "h ! deplist = PyDict kvs"
    and c: "copy_entries h kvs = Inr (h1, es)"
    and l: "resolve_loop_h (h1 @ [PyDict es] @ [PyList []]) (length h1) (Suc (length h1))
        = Some (Inr (h', res))"
    by (auto simp: resolve_dependencies_h_def alloc_def split: if_splits pyobj.splits sum.splits)
  from closed dl have "\<forall>(k, a) \<in> set kvs. a < length h" by simp
  from copy_entries_spec[OF c this] obtain items where v: "view_entries h kvs = Inr items"
    and e: "list_all2 (entry_at h1) es items" by blast
  let ?h3 = "h1 @ [PyDict es] @ [PyList []]"
  from e have "list_all2 (entry_at ?h3) es items"
    by (rule list_all2_mono) (rule entry_at_extend)
  then have "read_entries ?h3 es = Inr items" by (simp add: read_entries_iff)
  then have "read_dict ?h3 (length h1) = Inr items" by (simp add: read_dict_def nth_append)
  moreover have "read_waves ?h3 (Suc (length h1)) = Inr []"
    by (simp add: read_waves_def nth_append)
  ultimately have inv: "heap_inv ?h3 (length h1) (Suc (length h1)) items []"
    by (simp add: heap_inv_def)
  from resolve_loop_h_refines[OF l] inv obtain waves where
    w: "res = Suc (length h1)" "read_waves h' (Suc (length h1)) = Inr waves"
    "resolve_loop items [] = Some waves" by blast
  from v dl have "dict_view h deplist = Inr items" by (simp add: dict_view_def)
  with w show ?thesis by (auto simp: resolve_dependencies_def)
qed

text \<open>
  C9. Whenever \<^verbatim>\<open>resolve_dependencies\<close> returns, every object that existed before the call
  is what it was: the heap after the call is the heap before the call followed by new
  objects. In particular the caller's dict and each of its dependency sets are unchanged;
  the resolver writes only to its own copies, to \<^verbatim>\<open>t\<close> and to \<^verbatim>\<open>r\<close>.
\<close>

theorem resolve_dependencies_h_keeps_argument:
  assumes "resolve_dependencies_h h deplist = Some (Inr (h', r))"
  shows "take (length h) h' = h \<and> (\<forall>a < length h. h' ! a = h ! a)"
proof -
  from resolve_dependencies_h_frame[OF assms] have t: "take (length h) h' = h" .
  have "h' ! a = h ! a" if "a < length h" for a
  proof -
    from that have "take (length h) h' ! a = h' ! a" by simp
    with t show ?thesis by simp
  qed
  with t show ?thesis by blast
qed

lemma heap_example:
  "resolve_dependencies_h [PySet {''B''}, PyDict [], PyDict [(''A'', 0), (''B'', 1)]] 2
     = Some (Inr ([PySet {''B''}, PyDict [], PyDict [(''A'', 0), (''B'', 1)],
                   PySet {''B''}, PySet {}, PyDict [(''A'', 3), (''B'', 4)],
                   PyList [7, 10], PySet {''B''}, PySet {}, PyDict [(''A'', 8)],
                   PySet {''A''}, PyDict []], 6))"
  by code_simp

theorem resolve_dependencies_h_keeps_argument_witness:
  "resolve_dependencies_h [PySet {''B''}, PyDict [], PyDict [(''A'', 0), (''B'', 1)]] 2
     = Some (Inr ([PySet {''B''}, PyDict [], PyDict [(''A'', 0), (''B'', 1)],
                   PySet {''B''}, PySet {}, PyDict [(''A'', 3), (''B'', 4)],
                   PyList [7, 10], PySet {''B''}, PySet {}, PyDict [(''A'', 8)],
                   PySet {''A''}, PyDict []], 6))
   \<and> take (length [PySet {''B''}, PyDict [], PyDict [(''A'', 0), (''B'', 1)]])
        [PySet {''B''}, PyDict [], PyDict [(''A'', 0), (''B'', 1)],
         PySet {''B''}, PySet {}, PyDict [(''A'', 3), (''B'', 4)],
         PyList [7, 10], PySet {''B''}, PySet {}, PyDict [(''A'', 8)],
         PySet {''A''}, PyDict []]
      = [PySet {''B''}, PyDict [], PyDict [(''A'', 0), (''B'', 1)]]"
  using heap_example resolve_dependencies_h_keeps_argument[OF heap_example] by blast

end
